theory Spec2Isabelle
  imports Main "HOL-Library.Word"
begin

unbundle bit_operations_syntax

section \<open>Constants and types of page.go\<close>

abbreviation (input) PageSize :: nat where "PageSize \<equiv> 4096"
abbreviation (input) HeaderSize :: nat where "HeaderSize \<equiv> 16"
abbreviation (input) SlotArrSize :: nat where "SlotArrSize \<equiv> 6"
abbreviation (input) KeySize :: nat where "KeySize \<equiv> 2"
abbreviation (input) ValueSize :: nat where "ValueSize \<equiv> 2"
abbreviation (input) MaxKeyBytes :: nat where "MaxKeyBytes \<equiv> 400"
abbreviation (input) MaxValueBytes :: nat where "MaxValueBytes \<equiv> 400"

type_synonym byte = "8 word"
type_synonym uint16 = "16 word"
type_synonym uint32 = "32 word"
type_synonym uint64 = "64 word"

text \<open>
  The errors of the package. The source builds them with \<open>errors.New\<close>; the constructors
  carry the names the specification gives them:
  \<^item> \<open>KeyTooLarge\<close>: "key size exceeds maximum allowed",
  \<^item> \<open>ValueTooLarge\<close>: "value size exceeds maximum allowed",
  \<^item> \<open>InsufficientSpace\<close>: "not enough space",
  \<^item> \<open>NoSpaceAvailable\<close>: "no page with enough space",
  \<^item> \<open>KeyNotFound\<close>: "key not found",
  \<^item> \<open>ReadFailure\<close>, \<open>WriteFailure\<close>: the error of \<open>File.ReadAt\<close>, \<open>File.WriteAt\<close>,
  \<^item> \<open>Panic\<close>: a run-time panic of Go (a slice expression out of range).
\<close>

datatype error = KeyTooLarge | ValueTooLarge | InsufficientSpace | NoSpaceAvailable
  | KeyNotFound | ReadFailure | WriteFailure | Panic

record SlotArr =
  offset :: uint16
  len :: uint16
  flag :: uint16

record Page =
  PageId :: uint64
  Count :: uint32
  FreeSpace :: uint16
  DataStart :: uint16
  Ptr :: "byte list"

record DatabaseMeta =
  NextPageId :: uint64
  PageCount :: uint64
  LastPageId :: uint64

section \<open>Bytes, slices and the little-endian codec\<close>

text \<open>
  A Go string is a sequence of bytes; \<open>[]byte(key)\<close> and \<open>string(b)\<close> convert between the
  two without changing a byte. A \<open>char\<close> of HOL is one byte.
\<close>

definition toByte :: "char \<Rightarrow> byte" where
  "toByte c = of_nat (of_char c)"

definition toChar :: "byte \<Rightarrow> char" where
  "toChar b = char_of (unat b)"

definition bytesOf :: "string \<Rightarrow> byte list" where
  "bytesOf s = map toByte s"

definition stringOf :: "byte list \<Rightarrow> string" where
  "stringOf b = map toChar b"

text \<open>
  The slice expression \<open>b[lo:hi]\<close>: it panics unless \<open>lo \<le> hi \<le> len(b)\<close>. \<open>cutBytes\<close> is the
  slice itself, for the places where both bounds are constants inside a buffer made with
  \<open>make([]byte, PageSize)\<close>.
\<close>

definition cutBytes :: "byte list \<Rightarrow> nat \<Rightarrow> nat \<Rightarrow> byte list" where
  "cutBytes b lo hi = take (hi - lo) (drop lo b)"

definition sliceBytes :: "byte list \<Rightarrow> nat \<Rightarrow> nat \<Rightarrow> error + byte list" where
  "sliceBytes b lo hi = (if lo \<le> hi \<and> hi \<le> length b then Inr (cutBytes b lo hi) else Inl Panic)"

text \<open>
  A slice shares the array it was cut from: \<open>store b lo s\<close> is the array \<open>b\<close> once the slice
  that starts at \<open>lo\<close> holds \<open>s\<close>.
\<close>

definition store :: "byte list \<Rightarrow> nat \<Rightarrow> byte list \<Rightarrow> byte list" where
  "store b lo s = take lo b @ s @ drop (lo + length s) b"

text \<open>The builtin \<open>copy(dst, src)\<close> copies \<open>min(len(dst), len(src))\<close> bytes; the value is \<open>dst\<close> afterwards.\<close>

definition copy_go :: "byte list \<Rightarrow> byte list \<Rightarrow> byte list" where
  "copy_go dst src = take (length dst) src @ drop (length src) dst"

text \<open>
  \<open>binary.LittleEndian\<close>: the low byte comes first. Every call of the source passes a
  slice of exactly the width of the integer, so the bounds check at the head of each of
  these library functions passes.
\<close>

definition le16 :: "uint16 \<Rightarrow> byte list" where
  "le16 v = [ucast v, ucast (drop_bit 8 v)]"

definition le32 :: "uint32 \<Rightarrow> byte list" where
  "le32 v = [ucast v, ucast (drop_bit 8 v), ucast (drop_bit 16 v), ucast (drop_bit 24 v)]"

definition le64 :: "uint64 \<Rightarrow> byte list" where
  "le64 v = [ucast v, ucast (drop_bit 8 v), ucast (drop_bit 16 v), ucast (drop_bit 24 v),
     ucast (drop_bit 32 v), ucast (drop_bit 40 v), ucast (drop_bit 48 v), ucast (drop_bit 56 v)]"

definition PutUint16 :: "byte list \<Rightarrow> uint16 \<Rightarrow> byte list" where
  "PutUint16 b v = le16 v @ drop 2 b"

definition Uint16 :: "byte list \<Rightarrow> uint16" where
  "Uint16 b = ucast (b ! 0) OR push_bit 8 (ucast (b ! 1))"

definition PutUint32 :: "byte list \<Rightarrow> uint32 \<Rightarrow> byte list" where
  "PutUint32 b v = le32 v @ drop 4 b"

definition Uint32 :: "byte list \<Rightarrow> uint32" where
  "Uint32 b = ucast (b ! 0) OR push_bit 8 (ucast (b ! 1)) OR push_bit 16 (ucast (b ! 2))
     OR push_bit 24 (ucast (b ! 3))"

definition PutUint64 :: "byte list \<Rightarrow> uint64 \<Rightarrow> byte list" where
  "PutUint64 b v = le64 v @ drop 8 b"

definition Uint64 :: "byte list \<Rightarrow> uint64" where
  "Uint64 b = ucast (b ! 0) OR push_bit 8 (ucast (b ! 1)) OR push_bit 16 (ucast (b ! 2))
     OR push_bit 24 (ucast (b ! 3)) OR push_bit 32 (ucast (b ! 4)) OR push_bit 40 (ucast (b ! 5))
     OR push_bit 48 (ucast (b ! 6)) OR push_bit 56 (ucast (b ! 7))"

section \<open>Page methods\<close>

text \<open>Sequencing of calls that may fail: the first error ends the computation.\<close>

definition bindE :: "error + 'a \<Rightarrow> ('a \<Rightarrow> error + 'b) \<Rightarrow> error + 'b" where
  "bindE r f = (case r of Inl e \<Rightarrow> Inl e | Inr x \<Rightarrow> f x)"

definition GetSlot :: "Page \<Rightarrow> nat \<Rightarrow> error + SlotArr" where
  "GetSlot p index =
     (let slotOffset = index * SlotArrSize in
      bindE (sliceBytes (Ptr p) slotOffset (slotOffset + 2)) (\<lambda>a.
      bindE (sliceBytes (Ptr p) (slotOffset + 2) (slotOffset + 4)) (\<lambda>b.
      bindE (sliceBytes (Ptr p) (slotOffset + 4) (slotOffset + 6)) (\<lambda>c.
      Inr \<lparr>offset = Uint16 a, len = Uint16 b, flag = Uint16 c\<rparr>))))"

text \<open>
  A method with a pointer receiver changes the page in place and may return an error: its
  model returns the error (\<open>None\<close> is \<open>nil\<close>) and the page as the call leaves it.
  \<open>setBytes lo hi f\<close> is a statement that hands the slice \<open>p.Ptr[lo:hi]\<close> to a function that
  overwrites it; \<open>runAll\<close> executes statements in order and stops at the first panic.
\<close>

definition setBytes :: "nat \<Rightarrow> nat \<Rightarrow> (byte list \<Rightarrow> byte list) \<Rightarrow> Page \<Rightarrow> error option \<times> Page" where
  "setBytes lo hi f p =
     (case sliceBytes (Ptr p) lo hi of
        Inl e \<Rightarrow> (Some e, p)
      | Inr s \<Rightarrow> (None, p\<lparr>Ptr := store (Ptr p) lo (f s)\<rparr>))"

fun runAll :: "(Page \<Rightarrow> error option \<times> Page) list \<Rightarrow> Page \<Rightarrow> error option \<times> Page" where
  "runAll [] p = (None, p)"
| "runAll (f # fs) p = (case f p of (None, q) \<Rightarrow> runAll fs q | (Some e, q) \<Rightarrow> (Some e, q))"

definition SetSlot :: "nat \<Rightarrow> SlotArr \<Rightarrow> Page \<Rightarrow> error option \<times> Page" where
  "SetSlot index slot p =
     (let slotOffset = index * SlotArrSize in
      runAll
        [setBytes slotOffset (slotOffset + 2) (\<lambda>s. PutUint16 s (offset slot)),
         setBytes (slotOffset + 2) (slotOffset + 4) (\<lambda>s. PutUint16 s (len slot)),
         setBytes (slotOffset + 4) (slotOffset + 6) (\<lambda>s. PutUint16 s (flag slot))] p)"

definition WriteRecord :: "Page \<Rightarrow> string \<Rightarrow> string \<Rightarrow> error option \<times> Page" where
  "WriteRecord p key val =
     (let keyBytes = bytesOf key; valueBytes = bytesOf val in
      if length keyBytes > MaxKeyBytes then (Some KeyTooLarge, p)
      else if length valueBytes > MaxValueBytes then (Some ValueTooLarge, p)
      else
        let recordSize = KeySize + ValueSize + length keyBytes + length valueBytes in
        if unat (FreeSpace p) < recordSize + SlotArrSize then (Some InsufficientSpace, p)
        else
          let p1 = (if Count p = 0 then p\<lparr>DataStart := of_nat (PageSize - HeaderSize)\<rparr> else p);
              newDataStart = DataStart p1 - of_nat recordSize;
              writePos = unat newDataStart
          in runAll
            [setBytes writePos (writePos + 2) (\<lambda>s. PutUint16 s (of_nat (length keyBytes))),
             setBytes (writePos + 2) (writePos + 4) (\<lambda>s. PutUint16 s (of_nat (length valueBytes))),
             setBytes (writePos + 4) (writePos + 4 + length keyBytes) (\<lambda>s. copy_go s keyBytes),
             setBytes (writePos + 4 + length keyBytes)
               (writePos + 4 + length keyBytes + length valueBytes) (\<lambda>s. copy_go s valueBytes),
             (\<lambda>q. SetSlot (unat (Count q))
                \<lparr>offset = newDataStart, len = of_nat recordSize, flag = 0\<rparr> q),
             (\<lambda>q. (None, q\<lparr>DataStart := newDataStart, Count := Count q + 1,
                FreeSpace := FreeSpace q - of_nat (recordSize + SlotArrSize)\<rparr>))] p1)"

text \<open>
  The body of the loop of \<open>ReadRecord\<close> at slot \<open>i\<close>: \<open>Inr None\<close> when the loop goes on to the
  next slot (a deleted slot, or another key), \<open>Inr (Some v)\<close> when it returns \<open>v\<close>.
\<close>

definition readSlot :: "Page \<Rightarrow> byte list \<Rightarrow> nat \<Rightarrow> error + string option" where
  "readSlot p keyBytes i =
     bindE (GetSlot p i) (\<lambda>slot.
       if flag slot \<noteq> 0 then Inr None
       else
         let pos = unat (offset slot) in
         bindE (sliceBytes (Ptr p) pos (pos + 2)) (\<lambda>a.
         let keySize = Uint16 a; pos = pos + 2 in
         bindE (sliceBytes (Ptr p) pos (pos + 2)) (\<lambda>b.
         let valueSize = Uint16 b; pos = pos + 2 in
         bindE (sliceBytes (Ptr p) pos (pos + unat keySize)) (\<lambda>recordKey.
         let pos = pos + unat keySize in
         bindE (sliceBytes (Ptr p) pos (pos + unat valueSize)) (\<lambda>recordValue.
         if stringOf recordKey = stringOf keyBytes then Inr (Some (stringOf recordValue))
         else Inr None)))))"

function ReadRecord_from :: "Page \<Rightarrow> byte list \<Rightarrow> uint32 \<Rightarrow> error + string \<times> bool" where
  "ReadRecord_from p keyBytes i =
     (if i < Count p then
        (case readSlot p keyBytes (unat i) of
           Inl e \<Rightarrow> Inl e
         | Inr (Some v) \<Rightarrow> Inr (v, True)
         | Inr None \<Rightarrow> ReadRecord_from p keyBytes (i + 1))
      else Inr ('''', False))"
  by pat_completeness auto
termination
proof (relation "measure (\<lambda>(p, keyBytes, i). unat (Count p) - unat i)")
  show "wf (measure (\<lambda>(p, keyBytes, i). unat (Count p) - unat i))"
    by simp
next
  fix p :: Page and keyBytes :: "byte list" and i :: uint32 and x y
  assume lt: "i < Count p"
  then have "unat (Count p) - unat (i + 1) < unat (Count p) - unat i"
    by unat_arith
  then show "((p, keyBytes, i + 1), (p, keyBytes, i)) \<in> measure (\<lambda>(p, keyBytes, i). unat (Count p) - unat i)"
    by simp
qed

definition ReadRecord :: "Page \<Rightarrow> string \<Rightarrow> error + string \<times> bool" where
  "ReadRecord p key = ReadRecord_from p (bytesOf key) 0"

definition HasSpace :: "Page \<Rightarrow> nat \<Rightarrow> bool" where
  "HasSpace p recordSize = (unat (FreeSpace p) \<ge> recordSize)"


section \<open>The disk of storage.go\<close>

text \<open>
  \<open>os.File\<close> is outside the repository. Its model is the content of the file and the
  offsets at which the device refuses a read or a write. \<open>ReadAt\<close> fills the buffer and
  reports an error when the offset is negative, the device fails, or the file ends before
  the buffer is full; \<open>WriteAt\<close> extends the file with zero bytes up to the offset. Go's
  \<open>int\<close> has 64 bits.
\<close>

record osFile =
  Contents :: "byte list"
  BadRead :: "int \<Rightarrow> bool"
  BadWrite :: "int \<Rightarrow> bool"

definition ReadAt :: "osFile \<Rightarrow> nat \<Rightarrow> int \<Rightarrow> byte list \<times> error option" where
  "ReadAt f n off =
     (if off < 0 \<or> BadRead f off then (replicate n 0, Some ReadFailure)
      else
        let got = take n (drop (nat off) (Contents f)) in
        (got @ replicate (n - length got) 0, if length got < n then Some ReadFailure else None))"

definition WriteAt :: "osFile \<Rightarrow> byte list \<Rightarrow> int \<Rightarrow> error option \<times> osFile" where
  "WriteAt f data off =
     (if off < 0 \<or> BadWrite f off then (Some WriteFailure, f)
      else
        let padded = Contents f @ replicate (nat off - length (Contents f)) 0 in
        (None, f\<lparr>Contents := store padded (nat off) data\<rparr>))"

record Disk =
  FilePath :: string
  File :: osFile

definition Read :: "Disk \<Rightarrow> int \<Rightarrow> nat \<Rightarrow> byte list \<times> error option" where
  "Read disk off n = ReadAt (File disk) n off"

definition Write :: "Disk \<Rightarrow> int \<Rightarrow> byte list \<Rightarrow> (nat \<times> error option) \<times> Disk" where
  "Write disk off data =
     (case WriteAt (File disk) data off of
        (Some e, f) \<Rightarrow> ((0, Some e), disk\<lparr>File := f\<rparr>)
      | (None, f) \<Rightarrow> ((1, None), disk\<lparr>File := f\<rparr>))"

section \<open>Page manager methods\<close>

record PageManager =
  Pages :: "Page list"
  Disk :: Disk
  MetaData :: DatabaseMeta

definition NewPageManager :: "Disk \<Rightarrow> PageManager" where
  "NewPageManager disk =
     \<lparr>Pages = [], Disk = disk, MetaData = \<lparr>NextPageId = 1, PageCount = 0, LastPageId = 1\<rparr>\<rparr>"

text \<open>\<open>CreatePage\<close> leaves \<open>DataStart\<close> at the zero value of its type.\<close>

definition CreatePage :: "PageManager \<Rightarrow> Page \<times> PageManager" where
  "CreatePage pm =
     (let page = \<lparr>PageId = NextPageId (MetaData pm), Count = 0,
                  FreeSpace = of_nat (PageSize - HeaderSize), DataStart = 0,
                  Ptr = replicate (PageSize - HeaderSize) 0\<rparr>;
          m1 = (MetaData pm)\<lparr>LastPageId := NextPageId (MetaData pm)\<rparr>;
          m2 = m1\<lparr>NextPageId := LastPageId m1 + 1\<rparr>;
          m3 = m2\<lparr>PageCount := PageCount m2 + 1\<rparr>
      in (page, pm\<lparr>MetaData := m3\<rparr>))"

definition LoadMetaPage :: "PageManager \<Rightarrow> error option \<times> PageManager" where
  "LoadMetaPage pm =
     (case Read (Disk pm) 0 PageSize of
        (buf, Some e) \<Rightarrow> (Some e, pm)
      | (buf, None) \<Rightarrow>
          (None, pm\<lparr>MetaData := \<lparr>NextPageId = Uint64 (cutBytes buf 0 8), PageCount = Uint64 (cutBytes buf 8 16),
                                   LastPageId = Uint64 (cutBytes buf 16 24)\<rparr>\<rparr>))"

definition metaBytes :: "DatabaseMeta \<Rightarrow> byte list" where
  "metaBytes m =
     (let buf = replicate PageSize 0;
          buf = store buf 0 (PutUint64 (cutBytes buf 0 8) (NextPageId m));
          buf = store buf 8 (PutUint64 (cutBytes buf 8 16) (PageCount m));
          buf = store buf 16 (PutUint64 (cutBytes buf 16 24) (LastPageId m))
      in buf)"

definition SaveMetaDataPage :: "PageManager \<Rightarrow> error option \<times> PageManager" where
  "SaveMetaDataPage pm =
     (case Write (Disk pm) 0 (metaBytes (MetaData pm)) of
        ((n, err), disk) \<Rightarrow> (err, pm\<lparr>Disk := disk\<rparr>))"

text \<open>
  The 4096-byte image of a page, as \<open>writePageToDisk\<close> builds it, and the page that
  \<open>LoadPage\<close> parses from such an image.
\<close>

definition pageBytes :: "Page \<Rightarrow> byte list" where
  "pageBytes page =
     (let buf = replicate PageSize 0;
          buf = store buf 0 (PutUint64 (cutBytes buf 0 8) (PageId page));
          buf = store buf 8 (PutUint32 (cutBytes buf 8 12) (Count page));
          buf = store buf 12 (PutUint16 (cutBytes buf 12 14) (FreeSpace page));
          buf = store buf 14 (PutUint16 (cutBytes buf 14 16) (DataStart page));
          buf = store buf HeaderSize (copy_go (drop HeaderSize buf) (Ptr page))
      in buf)"

definition parsePage :: "byte list \<Rightarrow> Page" where
  "parsePage buf =
     \<lparr>PageId = Uint64 (cutBytes buf 0 8), Count = Uint32 (cutBytes buf 8 12),
      FreeSpace = Uint16 (cutBytes buf 12 14), DataStart = Uint16 (cutBytes buf 14 16),
      Ptr = copy_go (replicate (PageSize - HeaderSize) 0) (drop HeaderSize buf)\<rparr>"

definition pageOffset :: "uint64 \<Rightarrow> int" where
  "pageOffset pageId = sint (pageId * of_nat PageSize)"

definition LoadPage :: "PageManager \<Rightarrow> uint64 \<Rightarrow> error + Page" where
  "LoadPage pm pageId =
     (case Read (Disk pm) (pageOffset pageId) PageSize of
        (buf, Some e) \<Rightarrow> Inl e
      | (buf, None) \<Rightarrow> Inr (parsePage buf))"

definition writePageToDisk :: "PageManager \<Rightarrow> Page \<Rightarrow> error option \<times> PageManager" where
  "writePageToDisk pm page =
     (case Write (Disk pm) (pageOffset (PageId page)) (pageBytes page) of
        ((n, err), disk) \<Rightarrow> (err, pm\<lparr>Disk := disk\<rparr>))"

text \<open>
  The two scans run \<open>pageId\<close> over \<open>uint64\<close> while \<open>pageId <= LastPageId\<close>. With
  \<open>LastPageId\<close> at the largest value of the type the condition never fails, so the scans
  are partial functions: \<open>None\<close> is a scan that does not return.
\<close>

partial_function (option) findPageWithSpace_from ::
  "PageManager \<Rightarrow> nat \<Rightarrow> uint64 \<Rightarrow> (error + Page) option" where
  "findPageWithSpace_from pm recordSize pageId =
     (if pageId \<le> LastPageId (MetaData pm) then
        (case LoadPage pm pageId of
           Inl e \<Rightarrow> findPageWithSpace_from pm recordSize (pageId + 1)
         | Inr page \<Rightarrow>
             if HasSpace page recordSize then Some (Inr page)
             else findPageWithSpace_from pm recordSize (pageId + 1))
      else Some (Inl NoSpaceAvailable))"

definition findPageWithSpace :: "PageManager \<Rightarrow> nat \<Rightarrow> (error + Page) option" where
  "findPageWithSpace pm recordSize = findPageWithSpace_from pm recordSize 1"

definition InsertRecord :: "PageManager \<Rightarrow> string \<Rightarrow> string \<Rightarrow> (error option \<times> PageManager) option" where
  "InsertRecord pm key val =
     (let recordSize = KeySize + ValueSize + length key + length val in
      case findPageWithSpace pm recordSize of
        None \<Rightarrow> None
      | Some found \<Rightarrow>
          let (err, pageWithSpace, pm) =
            (case found of
               Inr page \<Rightarrow> (None, page, pm)
             | Inl e \<Rightarrow>
                 let (page, pm) = CreatePage pm;
                     (err, pm) = writePageToDisk pm page
                 in if err \<noteq> None then (err, page, pm)
                    else (None, page, snd (SaveMetaDataPage pm)))
          in if err \<noteq> None then Some (err, pm)
             else
               (case WriteRecord pageWithSpace key val of
                  (Some e, page) \<Rightarrow> Some (Some e, pm)
                | (None, page) \<Rightarrow> Some (writePageToDisk pm page)))"

partial_function (option) FindRecord_from ::
  "PageManager \<Rightarrow> string \<Rightarrow> uint64 \<Rightarrow> (error + string) option" where
  "FindRecord_from pm key pageId =
     (if pageId \<le> LastPageId (MetaData pm) then
        (case LoadPage pm pageId of
           Inl e \<Rightarrow> FindRecord_from pm key (pageId + 1)
         | Inr page \<Rightarrow>
             (case ReadRecord page key of
                Inl e \<Rightarrow> Some (Inl e)
              | Inr (v, found) \<Rightarrow>
                  if found then Some (Inr v) else FindRecord_from pm key (pageId + 1)))
      else Some (Inl KeyNotFound))"

definition FindRecord :: "PageManager \<Rightarrow> string \<Rightarrow> (error + string) option" where
  "FindRecord pm key = FindRecord_from pm key 1"

section \<open>Notions used to state the properties\<close>

text \<open>A sequence of \<open>WriteRecord\<close> calls on one page, stopped by the first call that fails.\<close>

fun writeAll :: "Page \<Rightarrow> (string \<times> string) list \<Rightarrow> error option \<times> Page" where
  "writeAll p [] = (None, p)"
| "writeAll p ((k, v) # kvs) =
     (case WriteRecord p k v of
        (None, q) \<Rightarrow> writeAll q kvs
      | (Some e, q) \<Rightarrow> (Some e, q))"

text \<open>The bytes of a record and of a slot entry, as \<open>WriteRecord\<close> and \<open>SetSlot\<close> lay them out.\<close>

definition recordSize :: "string \<times> string \<Rightarrow> nat" where
  "recordSize kv = KeySize + ValueSize + length (fst kv) + length (snd kv)"

definition recordBytes :: "string \<times> string \<Rightarrow> byte list" where
  "recordBytes kv =
     le16 (of_nat (length (fst kv))) @ le16 (of_nat (length (snd kv)))
       @ bytesOf (fst kv) @ bytesOf (snd kv)"

definition slotBytes :: "SlotArr \<Rightarrow> byte list" where
  "slotBytes s = le16 (offset s) @ le16 (len s) @ le16 (flag s)"

text \<open>
  Where the next record of a page goes: \<open>WriteRecord\<close> starts from the end of the buffer
  when the page has no record, from \<open>DataStart\<close> otherwise, and moves down by the size of
  the record in 16-bit arithmetic.
\<close>

definition dataTop :: "Page \<Rightarrow> uint16" where
  "dataTop p = (if Count p = 0 then of_nat (PageSize - HeaderSize) else DataStart p)"

definition nextStart :: "Page \<Rightarrow> string \<times> string \<Rightarrow> uint16" where
  "nextStart p kv = dataTop p - of_nat (recordSize kv)"

definition newSlot :: "Page \<Rightarrow> string \<times> string \<Rightarrow> SlotArr" where
  "newSlot p kv = \<lparr>offset = nextStart p kv, len = of_nat (recordSize kv), flag = 0\<rparr>"

text \<open>
  The space accounting of a page. The equation is stated with \<open>dataTop\<close>, not \<open>DataStart\<close>,
  because a page without records has not initialised \<open>DataStart\<close> yet.
\<close>

definition spaceOk :: "Page \<Rightarrow> bool" where
  "spaceOk p \<longleftrightarrow>
     length (Ptr p) = PageSize - HeaderSize \<and>
     unat (FreeSpace p) + unat (Count p) * SlotArrSize = unat (dataTop p) \<and>
     unat (dataTop p) \<le> PageSize - HeaderSize"

text \<open>
  What a page built by \<open>WriteRecord\<close> calls looks like. \<open>holds p kvs\<close>: the page \<open>p\<close> stores
  the records \<open>kvs\<close>, in the order of their insertion; record \<open>i\<close> starts at \<open>recAt kvs i\<close>, the
  records are packed downward from the end of the buffer, and slot \<open>i\<close> describes record \<open>i\<close>
  and is active.
\<close>

definition used :: "(string \<times> string) list \<Rightarrow> nat" where
  "used kvs = sum_list (map recordSize kvs)"

definition recAt :: "(string \<times> string) list \<Rightarrow> nat \<Rightarrow> nat" where
  "recAt kvs i = (PageSize - HeaderSize) - used (take (Suc i) kvs)"

definition holds :: "Page \<Rightarrow> (string \<times> string) list \<Rightarrow> bool" where
  "holds p kvs \<longleftrightarrow>
     spaceOk p \<and> unat (Count p) = length kvs \<and>
     used kvs \<le> PageSize - HeaderSize \<and> unat (dataTop p) = (PageSize - HeaderSize) - used kvs \<and>
     (\<forall>kv \<in> set kvs. length (fst kv) \<le> MaxKeyBytes \<and> length (snd kv) \<le> MaxValueBytes) \<and>
     (\<forall>i < length kvs.
        cutBytes (Ptr p) (i * SlotArrSize) (i * SlotArrSize + SlotArrSize)
          = slotBytes \<lparr>offset = of_nat (recAt kvs i), len = of_nat (recordSize (kvs ! i)), flag = 0\<rparr> \<and>
        cutBytes (Ptr p) (recAt kvs i) (recAt kvs i + recordSize (kvs ! i)) = recordBytes (kvs ! i))"

text \<open>The answer of a lookup in a list of records: the first record with the key wins.\<close>

definition firstMatch :: "(string \<times> string) list \<Rightarrow> string \<Rightarrow> string \<times> bool" where
  "firstMatch kvs key = (case map_of kvs key of None \<Rightarrow> ('''', False) | Some v \<Rightarrow> (v, True))"

text \<open>A disk with an empty file and a device that never fails.\<close>

definition emptyDisk :: Disk where
  "emptyDisk = \<lparr>FilePath = ''test.db'',
     File = \<lparr>Contents = [], BadRead = (\<lambda>off. False), BadWrite = (\<lambda>off. False)\<rparr>\<rparr>"

text \<open>
  The example of the layout comment in page.go: a fresh page of a new manager, then the
  records \<open>("a", "hello")\<close> and \<open>("b", "world")\<close>.
\<close>

definition page0 :: Page where
  "page0 = fst (CreatePage (NewPageManager emptyDisk))"

definition page1 :: Page where
  "page1 = snd (WriteRecord page0 ''a'' ''hello'')"

definition page2 :: Page where
  "page2 = snd (WriteRecord page1 ''b'' ''world'')"

text \<open>
  A page without records whose header says \<open>FreeSpace = DataStart = 100\<close>: \<open>LoadPage\<close> accepts
  such a header, and the equation \<open>FreeSpace = DataStart - Count * 6\<close> holds of it.
\<close>

definition stalePage :: Page where
  "stalePage = \<lparr>PageId = 1, Count = 0, FreeSpace = 100, DataStart = 100, Ptr = replicate 4080 0\<rparr>"

section \<open>Notions used to state the properties of the page manager\<close>

text \<open>
  \<open>onDisk d pages\<close>: the device of \<open>d\<close> never fails and its file holds page 0 followed by the
  images of \<open>pages\<close>, page \<open>i + 1\<close> of the file being \<open>pages ! i\<close>. A file without data pages may
  be shorter than page 0 (a new file is empty). \<open>stored pm pages\<close> adds the metadata a manager
  has over such a file: \<open>NewPageManager\<close> starts with \<open>LastPageId = 1\<close> and no page.
\<close>

definition noFaults :: "Disk \<Rightarrow> bool" where
  "noFaults d \<longleftrightarrow> (\<forall>off. \<not> BadRead (File d) off \<and> \<not> BadWrite (File d) off)"

definition onDisk :: "Disk \<Rightarrow> Page list \<Rightarrow> bool" where
  "onDisk d pages \<longleftrightarrow>
     noFaults d \<and> length pages < 2 ^ 32 \<and>
     (\<exists>meta. length meta \<le> PageSize \<and> (pages \<noteq> [] \<longrightarrow> length meta = PageSize) \<and>
        Contents (File d) = meta @ concat (map pageBytes pages)) \<and>
     (\<forall>i < length pages. PageId (pages ! i) = of_nat (Suc i) \<and>
        length (Ptr (pages ! i)) = PageSize - HeaderSize)"

definition stored :: "PageManager \<Rightarrow> Page list \<Rightarrow> bool" where
  "stored pm pages \<longleftrightarrow>
     onDisk (Disk pm) pages \<and>
     LastPageId (MetaData pm) = of_nat (max 1 (length pages)) \<and>
     NextPageId (MetaData pm) = of_nat (length pages) + 1"

text \<open>
  \<open>storedKV pm kvss\<close>: the store of \<open>pm\<close> has one page for each element of \<open>kvss\<close>, and page
  \<open>i + 1\<close> holds the records \<open>kvss ! i\<close>. On this view \<open>InsertRecord\<close> is \<open>placeRecord\<close> and
  \<open>FindRecord\<close> is \<open>findFirst\<close>: the first page whose free space is at least the size of the
  record is chosen, and the record is added to it if its slot entry fits too.
\<close>

definition storedKV :: "PageManager \<Rightarrow> (string \<times> string) list list \<Rightarrow> bool" where
  "storedKV pm kvss \<longleftrightarrow> (\<exists>pages. stored pm pages \<and> list_all2 holds pages kvss)"

definition freeOf :: "(string \<times> string) list \<Rightarrow> nat" where
  "freeOf kvs = (PageSize - HeaderSize) - used kvs - SlotArrSize * length kvs"

fun placeRecord :: "(string \<times> string) list list \<Rightarrow> string \<times> string \<Rightarrow> error + (string \<times> string) list list" where
  "placeRecord [] kv = Inr [[kv]]"
| "placeRecord (kvs # rest) kv =
     (if recordSize kv \<le> freeOf kvs then
        (if recordSize kv + SlotArrSize \<le> freeOf kvs then Inr ((kvs @ [kv]) # rest)
         else Inl InsufficientSpace)
      else
        (case placeRecord rest kv of Inl e \<Rightarrow> Inl e | Inr rest' \<Rightarrow> Inr (kvs # rest')))"

fun findFirst :: "(string \<times> string) list list \<Rightarrow> string \<Rightarrow> error + string" where
  "findFirst [] key = Inl KeyNotFound"
| "findFirst (kvs # rest) key =
     (case map_of kvs key of Some v \<Rightarrow> Inr v | None \<Rightarrow> findFirst rest key)"

text \<open>A sequence of \<open>InsertRecord\<close> calls, stopped by the first that fails, and a lookup after it.\<close>

fun insertAll :: "PageManager \<Rightarrow> (string \<times> string) list \<Rightarrow> (error option \<times> PageManager) option" where
  "insertAll pm [] = Some (None, pm)"
| "insertAll pm ((k, v) # kvs) =
     (case InsertRecord pm k v of
        None \<Rightarrow> None
      | Some (Some e, pm') \<Rightarrow> Some (Some e, pm')
      | Some (None, pm') \<Rightarrow> insertAll pm' kvs)"

definition findAfter :: "PageManager \<Rightarrow> (string \<times> string) list \<Rightarrow> string \<Rightarrow> (error + string) option" where
  "findAfter pm kvs key =
     (case insertAll pm kvs of
        None \<Rightarrow> None
      | Some (Some e, pm') \<Rightarrow> Some (Inl e)
      | Some (None, pm') \<Rightarrow> FindRecord pm' key)"

text \<open>A disk with an empty file whose device refuses every write at offset 0, the metadata page.\<close>

definition badMetaDisk :: Disk where
  "badMetaDisk = \<lparr>FilePath = ''test.db'',
     File = \<lparr>Contents = [], BadRead = (\<lambda>off. False), BadWrite = (\<lambda>off. off = 0)\<rparr>\<rparr>"

fun placeAll :: "(string \<times> string) list list \<Rightarrow> (string \<times> string) list \<Rightarrow> error + (string \<times> string) list list" where
  "placeAll kvss [] = Inr kvss"
| "placeAll kvss (kv # kvs) =
     (case placeRecord kvss kv of Inl e \<Rightarrow> Inl e | Inr kvss' \<Rightarrow> placeAll kvss' kvs)"

text \<open>A string of 400 bytes, the largest key or value \<open>WriteRecord\<close> accepts.\<close>

definition filler :: string where
  "filler = replicate 400 CHR ''x''"

text \<open>The store after \<open>("a", "hello")\<close> and \<open>("a", "world")\<close> were inserted into a new one.\<close>

definition storeDup :: PageManager where
  "storeDup = snd (the (insertAll (NewPageManager emptyDisk) [(''a'', ''hello''), (''a'', ''world'')]))"

section \<open>Bytes and slices\<close>

lemma toChar_toByte [simp]: "toChar (toByte c) = c"
  by (simp add: toChar_def toByte_def unat_of_nat take_bit_eq_mod)

lemma stringOf_bytesOf [simp]: "stringOf (bytesOf s) = s"
  by (simp add: stringOf_def bytesOf_def comp_def)

lemma length_bytesOf [simp]: "length (bytesOf s) = length s"
  by (simp add: bytesOf_def)

lemma bytesOf_eq_iff [simp]: "bytesOf s = bytesOf t \<longleftrightarrow> s = t"
  by (metis stringOf_bytesOf)

lemma length_cut [simp]: "hi \<le> length b \<Longrightarrow> length (cutBytes b lo hi) = hi - lo"
  by (simp add: cutBytes_def)

lemma nth_cut [simp]: "hi \<le> length b \<Longrightarrow> i < hi - lo \<Longrightarrow> cutBytes b lo hi ! i = b ! (lo + i)"
  by (simp add: cutBytes_def)

lemma length_store [simp]: "lo + length s \<le> length b \<Longrightarrow> length (store b lo s) = length b"
  by (simp add: store_def)

lemma nth_store:
  "lo + length s \<le> length b \<Longrightarrow> i < length b \<Longrightarrow>
   store b lo s ! i = (if lo \<le> i \<and> i < lo + length s then s ! (i - lo) else b ! i)"
  by (auto simp: store_def nth_append)

lemma cut_store_same:
  "lo + length s \<le> length b \<Longrightarrow> cutBytes (store b lo s) lo (lo + length s) = s"
  by (simp add: cutBytes_def store_def)

lemma cut_store_other:
  "lo + length s \<le> length b \<Longrightarrow> c \<le> length b \<Longrightarrow> c \<le> lo \<or> lo + length s \<le> a \<Longrightarrow>
   cutBytes (store b lo s) a c = cutBytes b a c"
  by (rule nth_equalityI) (auto simp: nth_store)

lemma store_store_adjacent:
  "lo + length s + length t \<le> length b \<Longrightarrow>
   store (store b lo s) (lo + length s) t = store b lo (s @ t)"
  by (rule nth_equalityI) (auto simp: nth_store nth_append)

lemma store_adj:
  "c = store b lo s \<Longrightarrow> m = lo + length s \<Longrightarrow> m + length t \<le> length b \<Longrightarrow>
   store c m t = store b lo (s @ t)"
  using store_store_adjacent [of lo s t b] by simp

lemma length_le16 [simp]: "length (le16 v) = 2"
  by (simp add: le16_def)

lemma Uint16_le16 [simp]: "Uint16 (le16 v) = v"
  unfolding Uint16_def le16_def
  by (rule bit_word_eqI) (auto simp: bit_simps)

lemma PutUint16_2 [simp]: "length b = 2 \<Longrightarrow> PutUint16 b v = le16 v"
  by (simp add: PutUint16_def)

lemma copy_go_same_length [simp]: "length dst = length src \<Longrightarrow> copy_go dst src = src"
  by (simp add: copy_go_def)

lemma slice_ok: "lo \<le> hi \<Longrightarrow> hi \<le> length b \<Longrightarrow> sliceBytes b lo hi = Inr (cutBytes b lo hi)"
  by (simp add: sliceBytes_def)

lemma setBytes_ok:
  "lo \<le> hi \<Longrightarrow> hi \<le> length (Ptr p) \<Longrightarrow>
   setBytes lo hi f p = (None, p\<lparr>Ptr := store (Ptr p) lo (f (cutBytes (Ptr p) lo hi))\<rparr>)"
  by (simp add: setBytes_def slice_ok)

lemma setBytes_16:
  assumes "lo + 2 = hi" "hi \<le> length (Ptr p)"
  shows "setBytes lo hi (\<lambda>s. PutUint16 s v) p = (None, p\<lparr>Ptr := store (Ptr p) lo (le16 v)\<rparr>)"
proof -
  from assms have c: "length (cutBytes (Ptr p) lo hi) = 2" by auto
  from assms have "lo \<le> hi" by linarith
  with assms c show ?thesis by (simp add: setBytes_ok)
qed

lemma setBytes_copy:
  assumes "lo + length src = hi" "hi \<le> length (Ptr p)"
  shows "setBytes lo hi (\<lambda>s. copy_go s src) p = (None, p\<lparr>Ptr := store (Ptr p) lo src\<rparr>)"
proof -
  from assms have c: "length (cutBytes (Ptr p) lo hi) = length src" by auto
  from assms have "lo \<le> hi" by linarith
  with assms c show ?thesis by (simp add: setBytes_ok)
qed

lemma store_Ptr [simp]: "Ptr (p\<lparr>Ptr := b\<rparr>) = b" by simp

lemma SetSlot_ok:
  assumes len: "index * 6 + 6 \<le> length (Ptr p)"
  shows "SetSlot index slot p = (None, p\<lparr>Ptr := store (Ptr p) (index * 6) (slotBytes slot)\<rparr>)"
proof -
  let ?o = "index * 6"
  let ?b1 = "store (Ptr p) ?o (le16 (offset slot))"
  let ?b2 = "store ?b1 (?o + 2) (le16 (len slot))"
  let ?b3 = "store ?b2 (?o + 4) (le16 (flag slot))"
  have l1: "length ?b1 = length (Ptr p)" using len by simp
  have l2: "length ?b2 = length (Ptr p)" using len l1 by simp
  have s1: "setBytes ?o (?o + 2) (\<lambda>s. PutUint16 s (offset slot)) p = (None, p\<lparr>Ptr := ?b1\<rparr>)"
    by (rule setBytes_16) (use len in simp_all)
  have s2: "setBytes (?o + 2) (?o + 4) (\<lambda>s. PutUint16 s (len slot)) (p\<lparr>Ptr := ?b1\<rparr>)
      = (None, p\<lparr>Ptr := ?b2\<rparr>)"
    using setBytes_16 [of "?o + 2" "?o + 4" "p\<lparr>Ptr := ?b1\<rparr>" "len slot"] len l1 by simp
  have s3: "setBytes (?o + 4) (?o + 6) (\<lambda>s. PutUint16 s (flag slot)) (p\<lparr>Ptr := ?b2\<rparr>)
      = (None, p\<lparr>Ptr := ?b3\<rparr>)"
    using setBytes_16 [of "?o + 4" "?o + 6" "p\<lparr>Ptr := ?b2\<rparr>" "flag slot"] len l2 by simp
  have "?b2 = store (Ptr p) ?o (le16 (offset slot) @ le16 (len slot))"
    by (rule store_adj [OF refl]) (use len in simp_all)
  then have "?b3 = store (Ptr p) ?o ((le16 (offset slot) @ le16 (len slot)) @ le16 (flag slot))"
    by (rule store_adj) (use len in simp_all)
  then have e: "?b3 = store (Ptr p) ?o (slotBytes slot)"
    by (simp add: slotBytes_def)
  show ?thesis
    unfolding SetSlot_def Let_def
    by (simp only: runAll.simps s1 s2 s3 prod.case option.case e)
qed

lemma length_recordBytes [simp]: "length (recordBytes kv) = recordSize kv"
  by (simp add: recordBytes_def recordSize_def)

lemma length_slotBytes [simp]: "length (slotBytes s) = 6"
  by (simp add: slotBytes_def)

lemma write_body:
  assumes len: "wp + 4 + length K + length V \<le> length (Ptr q)"
    and slot: "unat (Count q) * 6 + 6 \<le> length (Ptr q)"
  shows "runAll
      [setBytes wp (wp + 2) (\<lambda>s. PutUint16 s a),
       setBytes (wp + 2) (wp + 4) (\<lambda>s. PutUint16 s b),
       setBytes (wp + 4) (wp + 4 + length K) (\<lambda>s. copy_go s K),
       setBytes (wp + 4 + length K) (wp + 4 + length K + length V) (\<lambda>s. copy_go s V),
       (\<lambda>q. SetSlot (unat (Count q)) sl q),
       fin] q
     = fin (q\<lparr>Ptr := store (store (Ptr q) wp (le16 a @ le16 b @ K @ V)) (unat (Count q) * 6) (slotBytes sl)\<rparr>)"
proof -
  let ?b1 = "store (Ptr q) wp (le16 a)"
  let ?b2 = "store ?b1 (wp + 2) (le16 b)"
  let ?b3 = "store ?b2 (wp + 4) K"
  let ?b4 = "store ?b3 (wp + 4 + length K) V"
  have l1: "length ?b1 = length (Ptr q)" using len by simp
  have l2: "length ?b2 = length (Ptr q)" using len l1 by simp
  have l3: "length ?b3 = length (Ptr q)" using len l2 by simp
  have l4: "length ?b4 = length (Ptr q)" using len l3 by simp
  have s1: "setBytes wp (wp + 2) (\<lambda>s. PutUint16 s a) q = (None, q\<lparr>Ptr := ?b1\<rparr>)"
    by (rule setBytes_16) (use len in simp_all)
  have s2: "setBytes (wp + 2) (wp + 4) (\<lambda>s. PutUint16 s b) (q\<lparr>Ptr := ?b1\<rparr>) = (None, q\<lparr>Ptr := ?b2\<rparr>)"
    using setBytes_16 [of "wp + 2" "wp + 4" "q\<lparr>Ptr := ?b1\<rparr>" b] len l1 by simp
  have s3: "setBytes (wp + 4) (wp + 4 + length K) (\<lambda>s. copy_go s K) (q\<lparr>Ptr := ?b2\<rparr>) = (None, q\<lparr>Ptr := ?b3\<rparr>)"
    using setBytes_copy [of "wp + 4" K "wp + 4 + length K" "q\<lparr>Ptr := ?b2\<rparr>"] len l2 by simp
  have s4: "setBytes (wp + 4 + length K) (wp + 4 + length K + length V) (\<lambda>s. copy_go s V) (q\<lparr>Ptr := ?b3\<rparr>)
      = (None, q\<lparr>Ptr := ?b4\<rparr>)"
    using setBytes_copy [of "wp + 4 + length K" V "wp + 4 + length K + length V" "q\<lparr>Ptr := ?b3\<rparr>"] len l3 by simp
  have s5: "SetSlot (unat (Count (q\<lparr>Ptr := ?b4\<rparr>))) sl (q\<lparr>Ptr := ?b4\<rparr>)
      = (None, q\<lparr>Ptr := store ?b4 (unat (Count q) * 6) (slotBytes sl)\<rparr>)"
    using SetSlot_ok [of "unat (Count q)" "q\<lparr>Ptr := ?b4\<rparr>" sl] slot l4 by simp
  have "?b2 = store (Ptr q) wp (le16 a @ le16 b)"
    by (rule store_adj [OF refl]) (use len in simp_all)
  then have "?b3 = store (Ptr q) wp ((le16 a @ le16 b) @ K)"
    by (rule store_adj) (use len in simp_all)
  then have "?b4 = store (Ptr q) wp (((le16 a @ le16 b) @ K) @ V)"
    by (rule store_adj) (use len in simp_all)
  then have e: "?b4 = store (Ptr q) wp (le16 a @ le16 b @ K @ V)"
    by simp
  note s5' = s5 [unfolded e]
  show ?thesis
    by (simp only: runAll.simps s1 s2 s3 s4 e s5' prod.case option.case)
      (simp split: prod.split option.split)
qed

lemma write_body_gen:
  assumes "e1 = wp + 2" "e2 = wp + 2" "e3 = wp + 4" "e4 = wp + 4" "e5 = wp + 4 + length K"
    "e6 = wp + 4 + length K" "e7 = wp + 4 + length K + length V"
    and len: "wp + 4 + length K + length V \<le> length (Ptr q)"
    and slot: "unat (Count q) * 6 + 6 \<le> length (Ptr q)"
  shows "runAll
      [setBytes wp e1 (\<lambda>s. PutUint16 s a),
       setBytes e2 e3 (\<lambda>s. PutUint16 s b),
       setBytes e4 e5 (\<lambda>s. copy_go s K),
       setBytes e6 e7 (\<lambda>s. copy_go s V),
       (\<lambda>q. SetSlot (unat (Count q)) sl q),
       fin] q
     = fin (q\<lparr>Ptr := store (store (Ptr q) wp (le16 a @ le16 b @ K @ V)) (unat (Count q) * 6) (slotBytes sl)\<rparr>)"
  unfolding assms(1-7) using len slot by (rule write_body)

lemma WriteRecord_ok:
  assumes "length key \<le> 400" "length val \<le> 400"
    and "recordSize (key, val) + 6 \<le> unat (FreeSpace p)"
    and "unat (nextStart p (key, val)) + recordSize (key, val) \<le> length (Ptr p)"
    and "unat (Count p) * 6 + 6 \<le> length (Ptr p)"
  shows "WriteRecord p key val =
    (None, p\<lparr>DataStart := nextStart p (key, val), Count := Count p + 1,
             FreeSpace := FreeSpace p - of_nat (recordSize (key, val) + 6),
             Ptr := store (store (Ptr p) (unat (nextStart p (key, val))) (recordBytes (key, val)))
                      (unat (Count p) * 6) (slotBytes (newSlot p (key, val)))\<rparr>)"
proof (cases "Count p = 0")
  case True
  with assms show ?thesis
    by (simp add: WriteRecord_def Let_def write_body_gen nextStart_def dataTop_def
        recordSize_def recordBytes_def newSlot_def del: runAll.simps)
next
  case False
  with assms show ?thesis
    by (simp add: WriteRecord_def Let_def write_body_gen nextStart_def dataTop_def
        recordSize_def recordBytes_def newSlot_def del: runAll.simps)
qed

lemma runAll_Cons_None:
  assumes "fst (runAll (f # fs) p) = None"
  obtains q where "f p = (None, q)" "fst (runAll fs q) = None"
  using assms by (cases "f p") (auto split: option.splits)

lemma setBytes_NoneD:
  assumes "setBytes lo hi f p = (None, q)"
  shows "lo \<le> hi \<and> hi \<le> length (Ptr p)"
  using assms by (auto simp: setBytes_def sliceBytes_def split: if_splits)

lemma SetSlot_None:
  assumes "SetSlot index slot p = (None, q)"
  shows "index * 6 + 6 \<le> length (Ptr p)"
proof -
  let ?o = "index * 6"
  from assms have r0: "fst (runAll
        [setBytes ?o (?o + 2) (\<lambda>s. PutUint16 s (offset slot)),
         setBytes (?o + 2) (?o + 4) (\<lambda>s. PutUint16 s (len slot)),
         setBytes (?o + 4) (?o + 6) (\<lambda>s. PutUint16 s (flag slot))] p) = None"
    by (simp add: SetSlot_def Let_def del: runAll.simps)
  from r0 obtain q1 where s1: "setBytes ?o (?o + 2) (\<lambda>s. PutUint16 s (offset slot)) p = (None, q1)"
    and r1: "fst (runAll [setBytes (?o + 2) (?o + 4) (\<lambda>s. PutUint16 s (len slot)),
         setBytes (?o + 4) (?o + 6) (\<lambda>s. PutUint16 s (flag slot))] q1) = None"
    by (rule runAll_Cons_None)
  from setBytes_NoneD [OF s1] have b1: "?o + 2 \<le> length (Ptr p)" by simp
  from s1 setBytes_16 [OF refl b1, of "offset slot"] have q1: "length (Ptr q1) = length (Ptr p)"
    using b1 by auto
  from r1 obtain q2 where s2: "setBytes (?o + 2) (?o + 4) (\<lambda>s. PutUint16 s (len slot)) q1 = (None, q2)"
    and r2: "fst (runAll [setBytes (?o + 4) (?o + 6) (\<lambda>s. PutUint16 s (flag slot))] q2) = None"
    by (rule runAll_Cons_None)
  from setBytes_NoneD [OF s2] have b2: "?o + 4 \<le> length (Ptr q1)" by simp
  have "?o + 2 + 2 = ?o + 4" by simp
  from s2 setBytes_16 [OF this b2, of "len slot"] have q2: "length (Ptr q2) = length (Ptr q1)"
    using b2 by auto
  from r2 obtain q3 where s3: "setBytes (?o + 4) (?o + 6) (\<lambda>s. PutUint16 s (flag slot)) q2 = (None, q3)"
    by (rule runAll_Cons_None)
  from setBytes_NoneD [OF s3] q2 q1 show ?thesis by simp
qed

lemma write_body_None:
  assumes r0: "fst (runAll
      [setBytes wp (wp + 2) (\<lambda>s. PutUint16 s a),
       setBytes (wp + 2) (wp + 4) (\<lambda>s. PutUint16 s b),
       setBytes (wp + 4) (wp + 4 + length K) (\<lambda>s. copy_go s K),
       setBytes (wp + 4 + length K) (wp + 4 + length K + length V) (\<lambda>s. copy_go s V),
       (\<lambda>q. SetSlot (unat (Count q)) sl q),
       fin] q) = None"
  shows "wp + 4 + length K + length V \<le> length (Ptr q) \<and> unat (Count q) * 6 + 6 \<le> length (Ptr q)"
proof -
  from r0 obtain q1 where s1: "setBytes wp (wp + 2) (\<lambda>s. PutUint16 s a) q = (None, q1)"
    and r1: "fst (runAll
      [setBytes (wp + 2) (wp + 4) (\<lambda>s. PutUint16 s b),
       setBytes (wp + 4) (wp + 4 + length K) (\<lambda>s. copy_go s K),
       setBytes (wp + 4 + length K) (wp + 4 + length K + length V) (\<lambda>s. copy_go s V),
       (\<lambda>q. SetSlot (unat (Count q)) sl q),
       fin] q1) = None"
    by (rule runAll_Cons_None)
  from setBytes_NoneD [OF s1] have b1: "wp + 2 \<le> length (Ptr q)" by simp
  from s1 setBytes_16 [OF refl b1, of a] have q1: "length (Ptr q1) = length (Ptr q)" "Count q1 = Count q"
    using b1 by auto
  from r1 obtain q2 where s2: "setBytes (wp + 2) (wp + 4) (\<lambda>s. PutUint16 s b) q1 = (None, q2)"
    and r2: "fst (runAll
      [setBytes (wp + 4) (wp + 4 + length K) (\<lambda>s. copy_go s K),
       setBytes (wp + 4 + length K) (wp + 4 + length K + length V) (\<lambda>s. copy_go s V),
       (\<lambda>q. SetSlot (unat (Count q)) sl q),
       fin] q2) = None"
    by (rule runAll_Cons_None)
  from setBytes_NoneD [OF s2] have b2: "wp + 4 \<le> length (Ptr q1)" by simp
  have "wp + 2 + 2 = wp + 4" by simp
  from s2 setBytes_16 [OF this b2, of b] have q2: "length (Ptr q2) = length (Ptr q1)" "Count q2 = Count q1"
    using b2 by auto
  from r2 obtain q3 where s3: "setBytes (wp + 4) (wp + 4 + length K) (\<lambda>s. copy_go s K) q2 = (None, q3)"
    and r3: "fst (runAll
      [setBytes (wp + 4 + length K) (wp + 4 + length K + length V) (\<lambda>s. copy_go s V),
       (\<lambda>q. SetSlot (unat (Count q)) sl q),
       fin] q3) = None"
    by (rule runAll_Cons_None)
  from setBytes_NoneD [OF s3] have b3: "wp + 4 + length K \<le> length (Ptr q2)" by simp
  from s3 setBytes_copy [OF refl b3] have q3: "length (Ptr q3) = length (Ptr q2)" "Count q3 = Count q2"
    using b3 by auto
  from r3 obtain q4 where s4: "setBytes (wp + 4 + length K) (wp + 4 + length K + length V) (\<lambda>s. copy_go s V) q3 = (None, q4)"
    and r4: "fst (runAll [(\<lambda>q. SetSlot (unat (Count q)) sl q), fin] q4) = None"
    by (rule runAll_Cons_None)
  from setBytes_NoneD [OF s4] have b4: "wp + 4 + length K + length V \<le> length (Ptr q3)" by simp
  from s4 setBytes_copy [OF refl b4] have q4: "length (Ptr q4) = length (Ptr q3)" "Count q4 = Count q3"
    using b4 by auto
  from r4 obtain q5 where s5: "SetSlot (unat (Count q4)) sl q4 = (None, q5)"
    by (rule runAll_Cons_None)
  from SetSlot_None [OF s5] b4 q1 q2 q3 q4 show ?thesis by simp
qed

lemma WriteRecord_None:
  assumes "fst (WriteRecord p key val) = None"
  shows "length key \<le> 400 \<and> length val \<le> 400 \<and> recordSize (key, val) + 6 \<le> unat (FreeSpace p)
     \<and> unat (nextStart p (key, val)) + recordSize (key, val) \<le> length (Ptr p)
     \<and> unat (Count p) * 6 + 6 \<le> length (Ptr p)"
proof -
  from assms have c: "length key \<le> 400" "length val \<le> 400" "recordSize (key, val) + 6 \<le> unat (FreeSpace p)"
    by (auto simp: WriteRecord_def Let_def recordSize_def split: if_splits simp del: runAll.simps)
  let ?p1 = "if Count p = 0 then p\<lparr>DataStart := of_nat (PageSize - HeaderSize)\<rparr> else p"
  let ?rs = "KeySize + ValueSize + length (bytesOf key) + length (bytesOf val)"
  let ?nds = "DataStart ?p1 - of_nat ?rs"
  from assms c have "fst (runAll
            [setBytes (unat ?nds) (unat ?nds + 2) (\<lambda>s. PutUint16 s (of_nat (length (bytesOf key)))),
             setBytes (unat ?nds + 2) (unat ?nds + 4) (\<lambda>s. PutUint16 s (of_nat (length (bytesOf val)))),
             setBytes (unat ?nds + 4) (unat ?nds + 4 + length (bytesOf key)) (\<lambda>s. copy_go s (bytesOf key)),
             setBytes (unat ?nds + 4 + length (bytesOf key))
               (unat ?nds + 4 + length (bytesOf key) + length (bytesOf val)) (\<lambda>s. copy_go s (bytesOf val)),
             (\<lambda>q. SetSlot (unat (Count q))
                \<lparr>offset = ?nds, len = of_nat ?rs, flag = 0\<rparr> q),
             (\<lambda>q. (None, q\<lparr>DataStart := ?nds, Count := Count q + 1,
                FreeSpace := FreeSpace q - of_nat (?rs + SlotArrSize)\<rparr>))] ?p1) = None"
    unfolding WriteRecord_def Let_def recordSize_def by (simp del: runAll.simps)
  from write_body_None [OF this] have "unat ?nds + 4 + length key + length val \<le> length (Ptr ?p1)"
    "unat (Count ?p1) * 6 + 6 \<le> length (Ptr ?p1)"
    by simp_all
  moreover have "?nds = nextStart p (key, val)"
    by (simp add: nextStart_def dataTop_def recordSize_def)
  moreover have "Ptr ?p1 = Ptr p" "Count ?p1 = Count p" by simp_all
  ultimately show ?thesis using c
    by (simp add: recordSize_def)
qed

lemma unat_sub_of_nat:
  fixes x :: "'a::len word"
  assumes "n \<le> unat x"
  shows "unat (x - of_nat n) = unat x - n"
proof -
  have "unat (of_nat n :: 'a word) = n"
    using assms by (rule le_unat_uoi)
  then have "(of_nat n :: 'a word) \<le> x"
    using assms by (simp add: word_le_nat_alt)
  then have "unat (x - of_nat n) = unat x - unat (of_nat n :: 'a word)"
    by (rule unat_sub)
  then show ?thesis
    using \<open>unat (of_nat n :: 'a word) = n\<close> by simp
qed

lemma unat_Count_Suc:
  fixes c :: uint32
  assumes "unat c < 4294967295"
  shows "unat (c + 1) = unat c + 1"
proof -
  from assms have "unat c + unat (1 :: uint32) < 2 ^ LENGTH(32)" by simp
  then have "unat (c + 1) = unat c + unat (1 :: uint32)"
    by (simp only: unat_add_lem)
  then show ?thesis by simp
qed

lemma dataTop_nonempty: "Count p \<noteq> 0 \<Longrightarrow> dataTop p = DataStart p"
  by (simp add: dataTop_def)

lemma CreatePage_page:
  "fst (CreatePage pm) = \<lparr>PageId = NextPageId (MetaData pm), Count = 0, FreeSpace = 4080,
     DataStart = 0, Ptr = replicate 4080 0\<rparr>"
  by (simp add: CreatePage_def Let_def)

lemma spaceOk_CreatePage: "spaceOk (fst (CreatePage pm))"
  by (simp add: CreatePage_page spaceOk_def dataTop_def)

text \<open>On a page with sound accounting the call cannot panic: the three checks decide.\<close>

lemma WriteRecord_spaceOk:
  assumes ok: "spaceOk p"
    and c: "length key \<le> 400" "length val \<le> 400" "recordSize (key, val) + 6 \<le> unat (FreeSpace p)"
  shows "WriteRecord p key val =
    (None, p\<lparr>DataStart := nextStart p (key, val), Count := Count p + 1,
             FreeSpace := FreeSpace p - of_nat (recordSize (key, val) + 6),
             Ptr := store (store (Ptr p) (unat (nextStart p (key, val))) (recordBytes (key, val)))
                      (unat (Count p) * 6) (slotBytes (newSlot p (key, val)))\<rparr>)"
    and "unat (nextStart p (key, val)) = unat (dataTop p) - recordSize (key, val)"
proof -
  from ok c have le: "recordSize (key, val) \<le> unat (dataTop p)"
    by (simp add: spaceOk_def)
  then show n: "unat (nextStart p (key, val)) = unat (dataTop p) - recordSize (key, val)"
    unfolding nextStart_def by (rule unat_sub_of_nat)
  from ok c le n show "WriteRecord p key val =
    (None, p\<lparr>DataStart := nextStart p (key, val), Count := Count p + 1,
             FreeSpace := FreeSpace p - of_nat (recordSize (key, val) + 6),
             Ptr := store (store (Ptr p) (unat (nextStart p (key, val))) (recordBytes (key, val)))
                      (unat (Count p) * 6) (slotBytes (newSlot p (key, val)))\<rparr>)"
    by (intro WriteRecord_ok) (simp_all add: spaceOk_def)
qed

lemma WriteRecord_space:
  assumes ok: "spaceOk p" and w: "WriteRecord p key val = (None, p')"
  shows "spaceOk p'" and "Count p' \<noteq> 0"
    and "unat (FreeSpace p') + recordSize (key, val) + 6 = unat (FreeSpace p)"
    and "unat (DataStart p') + recordSize (key, val) = unat (dataTop p)"
    and "unat (Count p') = unat (Count p) + 1"
    and "PageId p' = PageId p"
proof -
  from w have "fst (WriteRecord p key val) = None" by simp
  from WriteRecord_None [OF this]
  have c: "length key \<le> 400" "length val \<le> 400" "recordSize (key, val) + 6 \<le> unat (FreeSpace p)"
    by simp_all
  note cf = WriteRecord_spaceOk [OF ok c]
  from w cf(1) have p': "p' = p\<lparr>DataStart := nextStart p (key, val), Count := Count p + 1,
             FreeSpace := FreeSpace p - of_nat (recordSize (key, val) + 6),
             Ptr := store (store (Ptr p) (unat (nextStart p (key, val))) (recordBytes (key, val)))
                      (unat (Count p) * 6) (slotBytes (newSlot p (key, val)))\<rparr>"
    by simp
  from ok have cnt: "unat (Count p) * 6 \<le> 4080" by (simp add: spaceOk_def)
  then have c1: "unat (Count p + 1) = unat (Count p) + 1"
    by (intro unat_Count_Suc) simp
  then have nz: "Count p + 1 \<noteq> 0"
    by (metis Suc_eq_plus1 nat.simps(3) unat_0)
  have fs: "unat (FreeSpace p - of_nat (recordSize (key, val) + 6)) = unat (FreeSpace p) - (recordSize (key, val) + 6)"
    using c(3) by (rule unat_sub_of_nat)
  from ok c have len: "length (Ptr p) = 4080" by (simp add: spaceOk_def)
  from ok c cf(2) have fits: "unat (nextStart p (key, val)) + recordSize (key, val) \<le> 4080"
    "unat (Count p) * 6 + 6 \<le> unat (nextStart p (key, val))"
    unfolding spaceOk_def by linarith+
  show "Count p' \<noteq> 0" using nz by (simp add: p')
  show "unat (Count p') = unat (Count p) + 1" using c1 by (simp add: p')
  show "unat (FreeSpace p') + recordSize (key, val) + 6 = unat (FreeSpace p)"
    using fs c(3) by (simp add: p')
  show "unat (DataStart p') + recordSize (key, val) = unat (dataTop p)"
    using cf(2) c ok by (simp add: p' spaceOk_def)
  show "PageId p' = PageId p" by (simp add: p')
  have dt: "dataTop p' = nextStart p (key, val)"
    using nz by (simp add: p' dataTop_def)
  have l': "length (Ptr p') = 4080"
    using len fits by (simp add: p')
  have f': "unat (FreeSpace p') = unat (FreeSpace p) - (recordSize (key, val) + 6)"
    using fs by (simp add: p')
  have c': "unat (Count p') = unat (Count p) + 1"
    using c1 by (simp add: p')
  from ok have "unat (FreeSpace p) + unat (Count p) * 6 = unat (dataTop p)"
    by (simp add: spaceOk_def)
  with f' c' c(3) cf(2) fits have "unat (FreeSpace p') + unat (Count p') * 6 = unat (nextStart p (key, val))"
    by linarith
  with l' fits show "spaceOk p'"
    by (simp add: spaceOk_def dt)
qed

lemma writeAll_spaceOk:
  "spaceOk p \<Longrightarrow> writeAll p kvs = (None, q) \<Longrightarrow> spaceOk q"
proof (induction kvs arbitrary: p)
  case Nil
  then show ?case by simp
next
  case (Cons kv kvs)
  obtain k v where kv: "kv = (k, v)" by (cases kv)
  from Cons.prems(2) obtain p1 where w: "WriteRecord p k v = (None, p1)" and r: "writeAll p1 kvs = (None, q)"
    by (auto simp: kv split: prod.splits option.splits)
  from WriteRecord_space(1) [OF Cons.prems(1) w] r show ?case
    by (rule Cons.IH)
qed

section \<open>The records of a page\<close>

lemma cut_sub:
  assumes "cutBytes b a c = s" "a \<le> a'" "a' \<le> c'" "c' \<le> c" "c \<le> length b"
  shows "cutBytes b a' c' = cutBytes s (a' - a) (c' - a)"
proof (rule nth_equalityI)
  from assms have ls: "length s = c - a" by auto
  with assms show "length (cutBytes b a' c') = length (cutBytes s (a' - a) (c' - a))"
    by auto
  fix i assume "i < length (cutBytes b a' c')"
  with assms have i: "i < c' - a'" by simp
  with assms ls have "cutBytes s (a' - a) (c' - a) ! i = s ! (a' - a + i)"
    by (intro nth_cut) auto
  also from assms i have "\<dots> = b ! (a + (a' - a + i))"
    using nth_cut [of c b "a' - a + i" a] by auto
  finally show "cutBytes b a' c' ! i = cutBytes s (a' - a) (c' - a) ! i"
    using assms i by simp
qed

lemma cut_app1 [simp]: "cutBytes (xs @ ys) 0 (length xs) = xs"
  by (simp add: cutBytes_def)

lemma cut_app2 [simp]: "n = length xs \<Longrightarrow> m = length xs + length ys \<Longrightarrow> cutBytes (xs @ ys @ zs) n m = ys"
  by (simp add: cutBytes_def)

lemma used_Nil [simp]: "used [] = 0" by (simp add: used_def)

lemma used_append [simp]: "used (xs @ ys) = used xs + used ys" by (simp add: used_def)

lemma used_Cons [simp]: "used (x # xs) = recordSize x + used xs" by (simp add: used_def)

lemma used_take_Suc: "i < length kvs \<Longrightarrow> used (take (Suc i) kvs) = used (take i kvs) + recordSize (kvs ! i)"
  by (simp add: take_Suc_conv_app_nth)

lemma used_take_le: "used (take i kvs) \<le> used kvs"
proof -
  have "used kvs = used (take i kvs) + used (drop i kvs)"
    by (metis append_take_drop_id used_append)
  then show ?thesis by simp
qed

lemma holds_CreatePage: "holds (fst (CreatePage pm)) []"
  using spaceOk_CreatePage [of pm] by (simp add: holds_def CreatePage_page dataTop_def)

lemma recAt_append_old: "i < length kvs \<Longrightarrow> recAt (kvs @ [kv]) i = recAt kvs i"
  by (simp add: recAt_def)

lemma recAt_append_new: "recAt (kvs @ [kv]) (length kvs) = 4080 - used kvs - recordSize kv"
  by (simp add: recAt_def)

lemma recAt_bounds:
  assumes "i < length kvs" "used kvs \<le> 4080"
  shows "4080 - used kvs \<le> recAt kvs i" and "recAt kvs i + recordSize (kvs ! i) \<le> 4080"
    and "recAt kvs i + recordSize (kvs ! i) = 4080 - used (take i kvs)"
proof -
  have a: "used (take (Suc i) kvs) \<le> used kvs" by (rule used_take_le)
  have b: "used (take (Suc i) kvs) = used (take i kvs) + recordSize (kvs ! i)"
    using assms(1) by (rule used_take_Suc)
  from a show "4080 - used kvs \<le> recAt kvs i" by (simp add: recAt_def)
  from a b assms(2) show "recAt kvs i + recordSize (kvs ! i) \<le> 4080" by (simp add: recAt_def)
  from a b assms(2) show "recAt kvs i + recordSize (kvs ! i) = 4080 - used (take i kvs)"
    by (simp add: recAt_def)
qed

lemma holds_WriteRecord:
  assumes h: "holds p kvs" and w: "WriteRecord p key val = (None, p')"
  shows "holds p' (kvs @ [(key, val)])"
proof -
  let ?kv = "(key, val)"
  let ?n = "length kvs"
  let ?rs = "recordSize ?kv"
  let ?nds = "unat (nextStart p ?kv)"
  from h have ok: "spaceOk p" and cnt: "unat (Count p) = ?n" and u: "used kvs \<le> 4080"
    and top: "unat (dataTop p) = 4080 - used kvs"
    and sizes: "\<forall>kv \<in> set kvs. length (fst kv) \<le> 400 \<and> length (snd kv) \<le> 400"
    and old: "\<And>i. i < ?n \<Longrightarrow>
        cutBytes (Ptr p) (i * 6) (i * 6 + 6)
          = slotBytes \<lparr>offset = of_nat (recAt kvs i), len = of_nat (recordSize (kvs ! i)), flag = 0\<rparr> \<and>
        cutBytes (Ptr p) (recAt kvs i) (recAt kvs i + recordSize (kvs ! i)) = recordBytes (kvs ! i)"
    by (simp_all add: holds_def)
  from w have "fst (WriteRecord p key val) = None" by simp
  from WriteRecord_None [OF this]
  have c: "length key \<le> 400" "length val \<le> 400" "?rs + 6 \<le> unat (FreeSpace p)"
    by simp_all
  note cf = WriteRecord_spaceOk [OF ok c]
  note sp = WriteRecord_space [OF ok w]
  let ?b1 = "store (Ptr p) ?nds (recordBytes ?kv)"
  let ?b2 = "store ?b1 (?n * 6) (slotBytes (newSlot p ?kv))"
  from w cf(1) cnt have ptr: "Ptr p' = ?b2" by auto
  from ok have len: "length (Ptr p) = 4080" by (simp add: spaceOk_def)
  from ok cnt have acc: "unat (FreeSpace p) + ?n * 6 = unat (dataTop p)" by (simp add: spaceOk_def)
  from cf(2) top have nds: "?nds = 4080 - used kvs - ?rs" by simp
  from acc c(3) top u have room: "?rs + 6 + ?n * 6 \<le> 4080 - used kvs" by linarith
  from room nds have f1: "?n * 6 + 6 \<le> ?nds" and f2: "?nds + ?rs = 4080 - used kvs" and f3: "?nds + ?rs \<le> 4080"
    by linarith+
  have len1: "length ?b1 = 4080" using len f3 by simp
  have slot_new: "newSlot p ?kv = \<lparr>offset = of_nat (recAt (kvs @ [?kv]) ?n), len = of_nat ?rs, flag = 0\<rparr>"
    unfolding newSlot_def recAt_append_new nds [symmetric] by simp
  have entries: "cutBytes ?b2 (i * 6) (i * 6 + 6)
          = slotBytes \<lparr>offset = of_nat (recAt (kvs @ [?kv]) i), len = of_nat (recordSize ((kvs @ [?kv]) ! i)), flag = 0\<rparr> \<and>
        cutBytes ?b2 (recAt (kvs @ [?kv]) i) (recAt (kvs @ [?kv]) i + recordSize ((kvs @ [?kv]) ! i)) = recordBytes ((kvs @ [?kv]) ! i)"
    if i: "i < Suc ?n" for i
  proof (cases "i < ?n")
    case True
    note rb = recAt_bounds [OF True u]
    have "cutBytes ?b2 (i * 6) (i * 6 + 6) = cutBytes ?b1 (i * 6) (i * 6 + 6)"
      by (rule cut_store_other) (use True len1 f1 f3 in simp_all)
    also have "\<dots> = cutBytes (Ptr p) (i * 6) (i * 6 + 6)"
      by (rule cut_store_other) (use True len f1 f3 in simp_all)
    finally have a: "cutBytes ?b2 (i * 6) (i * 6 + 6) = cutBytes (Ptr p) (i * 6) (i * 6 + 6)" .
    have "cutBytes ?b2 (recAt kvs i) (recAt kvs i + recordSize (kvs ! i))
        = cutBytes ?b1 (recAt kvs i) (recAt kvs i + recordSize (kvs ! i))"
      by (rule cut_store_other) (use True len1 f1 f2 f3 rb in simp_all)
    also have "\<dots> = cutBytes (Ptr p) (recAt kvs i) (recAt kvs i + recordSize (kvs ! i))"
      by (rule cut_store_other) (use True len f1 f2 f3 rb in simp_all)
    finally have b: "cutBytes ?b2 (recAt kvs i) (recAt kvs i + recordSize (kvs ! i))
        = cutBytes (Ptr p) (recAt kvs i) (recAt kvs i + recordSize (kvs ! i))" .
    from True a b old [OF True] show ?thesis
      by (simp add: recAt_append_old nth_append)
  next
    case False
    with i have i: "i = ?n" by simp
    have a: "cutBytes ?b2 (?n * 6) (?n * 6 + length (slotBytes (newSlot p ?kv))) = slotBytes (newSlot p ?kv)"
      by (rule cut_store_same) (use len1 f1 f3 in simp)
    have "cutBytes ?b2 ?nds (?nds + ?rs) = cutBytes ?b1 ?nds (?nds + ?rs)"
      by (rule cut_store_other) (use len1 f1 f3 in simp_all)
    also have "\<dots> = recordBytes ?kv"
      using cut_store_same [of ?nds "recordBytes ?kv" "Ptr p"] len f3 by simp
    finally have b: "cutBytes ?b2 ?nds (?nds + ?rs) = recordBytes ?kv" .
    from a b slot_new show ?thesis
      by (simp add: i recAt_append_new nds)
  qed
  have "unat (dataTop p') = 4080 - used (kvs @ [?kv])"
    using sp(2,4) top f2 nds by (simp add: dataTop_def)
  moreover have "used (kvs @ [?kv]) \<le> 4080"
    using room by simp
  moreover have "unat (Count p') = length (kvs @ [?kv])"
    using sp(5) cnt by simp
  moreover have "\<forall>kv \<in> set (kvs @ [?kv]). length (fst kv) \<le> 400 \<and> length (snd kv) \<le> 400"
    using sizes c by simp
  ultimately show ?thesis
    unfolding holds_def using sp(1) entries by (simp add: ptr)
qed

lemma writeAll_holds:
  "holds p kvs0 \<Longrightarrow> writeAll p kvs = (None, q) \<Longrightarrow> holds q (kvs0 @ kvs)"
proof (induction kvs arbitrary: p kvs0)
  case Nil
  then show ?case by simp
next
  case (Cons kv kvs)
  obtain k v where kv: "kv = (k, v)" by (cases kv)
  from Cons.prems(2) obtain p1 where w: "WriteRecord p k v = (None, p1)" and r: "writeAll p1 kvs = (None, q)"
    by (auto simp: kv split: prod.splits option.splits)
  from holds_WriteRecord [OF Cons.prems(1) w] have "holds p1 (kvs0 @ [(k, v)])" .
  from Cons.IH [OF this r] show ?case by (simp add: kv)
qed

lemma unat_of_nat16: "n < 65536 \<Longrightarrow> unat (of_nat n :: uint16) = n"
  by (simp add: unat_of_nat)

lemma cut_le16_1 [simp]: "cutBytes (le16 a @ r) 0 2 = le16 a"
  by (simp add: cutBytes_def)

lemma cut_le16_2 [simp]: "cutBytes (le16 a @ le16 b @ r) 2 4 = le16 b"
  by (simp add: cutBytes_def)

lemma cut_le16_3 [simp]: "cutBytes (le16 a @ le16 b @ le16 c) 4 6 = le16 c"
  by (simp add: cutBytes_def)

lemma cut_sub_eq:
  assumes "cutBytes b a c = s" "c \<le> length b" "a \<le> a'" "a' \<le> c'" "c' \<le> c"
    and "cutBytes s (a' - a) (c' - a) = r"
  shows "cutBytes b a' c' = r"
  using cut_sub [of b a c s a' c'] assms by simp

lemma sliceI: "cutBytes b lo hi = s \<Longrightarrow> lo \<le> hi \<Longrightarrow> hi \<le> length b \<Longrightarrow> sliceBytes b lo hi = Inr s"
  by (simp add: sliceBytes_def)

lemma GetSlot_of_cut:
  assumes c: "cutBytes (Ptr p) (i * 6) (i * 6 + 6) = slotBytes s" and len: "i * 6 + 6 \<le> length (Ptr p)"
  shows "GetSlot p i = Inr s"
proof -
  have s1: "sliceBytes (Ptr p) (i * 6) (i * 6 + 2) = Inr (le16 (offset s))"
    by (rule sliceI, rule cut_sub_eq [OF c]) (use len in \<open>simp_all add: slotBytes_def\<close>)
  have s2: "sliceBytes (Ptr p) (i * 6 + 2) (i * 6 + 4) = Inr (le16 (len s))"
    by (rule sliceI, rule cut_sub_eq [OF c]) (use len in \<open>simp_all add: slotBytes_def\<close>)
  have s3: "sliceBytes (Ptr p) (i * 6 + 4) (i * 6 + 6) = Inr (le16 (flag s))"
    by (rule sliceI, rule cut_sub_eq [OF c]) (use len in \<open>simp_all add: slotBytes_def\<close>)
  show ?thesis
    unfolding GetSlot_def Let_def by (simp only: s1 s2 s3 bindE_def sum.case Uint16_le16) simp
qed

lemma readSlot_of_cut:
  assumes slot: "GetSlot p i = Inr \<lparr>offset = of_nat pos, len = l, flag = 0\<rparr>"
    and rec: "cutBytes (Ptr p) pos (pos + recordSize (k, v)) = recordBytes (k, v)"
    and len: "pos + recordSize (k, v) \<le> length (Ptr p)" "length (Ptr p) = 4080"
    and sizes: "length k \<le> 400" "length v \<le> 400"
  shows "readSlot p (bytesOf key) i = Inr (if k = key then Some v else None)"
proof -
  let ?rs = "recordSize (k, v)"
  have rs: "?rs = 4 + length k + length v" by (simp add: recordSize_def)
  have pos: "unat (of_nat pos :: uint16) = pos"
    using len by (intro unat_of_nat16) simp
  have lk: "unat (of_nat (length k) :: uint16) = length k"
    using sizes by (intro unat_of_nat16) simp
  have lv: "unat (of_nat (length v) :: uint16) = length v"
    using sizes by (intro unat_of_nat16) simp
  have s1: "sliceBytes (Ptr p) pos (pos + 2) = Inr (le16 (of_nat (length k)))"
    by (rule sliceI, rule cut_sub_eq [OF rec]) (use len in \<open>simp_all add: recordBytes_def rs\<close>)
  have s2: "sliceBytes (Ptr p) (pos + 2) (pos + 2 + 2) = Inr (le16 (of_nat (length v)))"
    by (rule sliceI, rule cut_sub_eq [OF rec]) (use len in \<open>simp_all add: recordBytes_def rs\<close>)
  have s3: "sliceBytes (Ptr p) (pos + 2 + 2) (pos + 2 + 2 + length k) = Inr (bytesOf k)"
    by (rule sliceI, rule cut_sub_eq [OF rec]) (use len in \<open>simp_all add: recordBytes_def rs cutBytes_def\<close>)
  have s4: "sliceBytes (Ptr p) (pos + 2 + 2 + length k) (pos + 2 + 2 + length k + length v) = Inr (bytesOf v)"
    by (rule sliceI, rule cut_sub_eq [OF rec]) (use len in \<open>simp_all add: recordBytes_def rs cutBytes_def\<close>)
  show ?thesis
    unfolding readSlot_def Let_def
    by (simp only: slot bindE_def sum.case SlotArr.simps pos s1 Uint16_le16 s2 lk lv s3 s4 stringOf_bytesOf)
      simp
qed

lemma holds_count_bound:
  assumes "holds p kvs"
  shows "length kvs * 6 \<le> 4080" and "length (Ptr p) = 4080"
  using assms by (auto simp: holds_def spaceOk_def)

lemma readSlot_holds:
  assumes h: "holds p kvs" and i: "i < length kvs"
  shows "readSlot p (bytesOf key) i = Inr (if fst (kvs ! i) = key then Some (snd (kvs ! i)) else None)"
proof -
  obtain k v where kv: "kvs ! i = (k, v)" by (cases "kvs ! i")
  from h have u: "used kvs \<le> 4080" by (simp add: holds_def)
  note rb = recAt_bounds [OF i u]
  note cb = holds_count_bound [OF h]
  from h i have sl: "cutBytes (Ptr p) (i * 6) (i * 6 + 6)
          = slotBytes \<lparr>offset = of_nat (recAt kvs i), len = of_nat (recordSize (kvs ! i)), flag = 0\<rparr>"
    and rc: "cutBytes (Ptr p) (recAt kvs i) (recAt kvs i + recordSize (kvs ! i)) = recordBytes (kvs ! i)"
    by (simp_all add: holds_def)
  from i cb have "i * 6 + 6 \<le> length (Ptr p)" by simp
  from GetSlot_of_cut [OF sl this]
  have g: "GetSlot p i = Inr \<lparr>offset = of_nat (recAt kvs i), len = of_nat (recordSize (kvs ! i)), flag = 0\<rparr>" .
  from h i have "length (fst (kvs ! i)) \<le> 400 \<and> length (snd (kvs ! i)) \<le> 400"
    by (simp add: holds_def)
  then have sz: "length k \<le> 400" "length v \<le> 400" by (simp_all add: kv)
  from readSlot_of_cut [OF g rc [unfolded kv] _ cb(2) sz, of key] rb(2) cb(2)
  show ?thesis by (simp add: kv)
qed

lemma firstMatch_Nil [simp]: "firstMatch [] key = ('''', False)"
  by (simp add: firstMatch_def)

lemma firstMatch_Cons [simp]:
  "firstMatch ((k, v) # kvs) key = (if k = key then (v, True) else firstMatch kvs key)"
  by (simp add: firstMatch_def)

lemma ReadRecord_from_holds:
  assumes h: "holds p kvs" and i: "i \<le> length kvs"
  shows "ReadRecord_from p (bytesOf key) (of_nat i) = Inr (firstMatch (drop i kvs) key)"
  using i
proof (induction "length kvs - i" arbitrary: i)
  case 0
  then have i: "i = length kvs" by simp
  have "of_nat (unat (Count p)) = Count p" by simp
  with h have "of_nat (length kvs) = Count p"
    by (simp add: holds_def)
  then have "\<not> (of_nat i :: uint32) < Count p" by (simp add: i)
  then show ?case
    by (subst ReadRecord_from.simps) (simp add: i)
next
  case (Suc m)
  then have i: "i < length kvs" by simp
  note cb = holds_count_bound [OF h]
  from i cb have ui: "unat (of_nat i :: uint32) = i"
    by (simp add: unat_of_nat)
  from h have cnt: "unat (Count p) = length kvs" by (simp add: holds_def)
  from i ui cnt have lt: "(of_nat i :: uint32) < Count p"
    by (simp add: word_less_nat_alt)
  obtain k v where kv: "kvs ! i = (k, v)" by (cases "kvs ! i")
  from i have dr: "drop i kvs = (k, v) # drop (Suc i) kvs"
    using Cons_nth_drop_Suc [of i kvs] by (simp add: kv)
  have nx: "(of_nat i :: uint32) + 1 = of_nat (Suc i)" by simp
  from Suc.hyps(2) have "m = length kvs - Suc i" by simp
  from Suc.hyps(1) [OF this] i
  have ih: "ReadRecord_from p (bytesOf key) (of_nat (Suc i)) = Inr (firstMatch (drop (Suc i) kvs) key)"
    by simp
  show ?case
    by (subst ReadRecord_from.simps) (simp only: lt if_True ui readSlot_holds [OF h i] nx ih dr kv, simp)
qed

lemma ReadRecord_holds:
  "holds p kvs \<Longrightarrow> ReadRecord p key = Inr (firstMatch kvs key)"
  using ReadRecord_from_holds [of p kvs 0 key] by (simp add: ReadRecord_def)

lemma ReadRecord_writeAll:
  assumes "writeAll (fst (CreatePage pm)) kvs = (None, p)"
  shows "ReadRecord p key = Inr (firstMatch kvs key)"
proof -
  from writeAll_holds [OF holds_CreatePage assms] have "holds p kvs" by simp
  then show ?thesis by (rule ReadRecord_holds)
qed

section \<open>The example pages\<close>

lemma WriteRecord_success:
  assumes "spaceOk p" "length key \<le> 400" "length val \<le> 400"
    "recordSize (key, val) + 6 \<le> unat (FreeSpace p)"
  shows "WriteRecord p key val = (None, snd (WriteRecord p key val))"
  by (simp add: WriteRecord_spaceOk(1) [OF assms])

lemma holds_page0: "holds page0 []"
  unfolding page0_def by (rule holds_CreatePage)

lemma spaceOk_page0: "spaceOk page0"
  unfolding page0_def by (rule spaceOk_CreatePage)

lemma FreeSpace_page0: "unat (FreeSpace page0) = 4080"
  by (simp add: page0_def CreatePage_page)

lemma write_page1: "WriteRecord page0 ''a'' ''hello'' = (None, page1)"
  unfolding page1_def
  by (rule WriteRecord_success [OF spaceOk_page0]) (simp_all add: recordSize_def FreeSpace_page0)

lemma spaceOk_page1: "spaceOk page1"
  using spaceOk_page0 write_page1 by (rule WriteRecord_space(1))

lemma FreeSpace_page1: "unat (FreeSpace page1) = 4064"
  using WriteRecord_space(3) [OF spaceOk_page0 write_page1]
  by (simp add: recordSize_def FreeSpace_page0)

lemma write_page2: "WriteRecord page1 ''b'' ''world'' = (None, page2)"
  unfolding page2_def
  by (rule WriteRecord_success [OF spaceOk_page1]) (simp_all add: recordSize_def FreeSpace_page1)

lemma writeAll_page1: "writeAll page0 [(''a'', ''hello'')] = (None, page1)"
  by (simp add: write_page1)

lemma writeAll_page2: "writeAll page0 [(''a'', ''hello''), (''b'', ''world'')] = (None, page2)"
  by (simp add: write_page1 write_page2)

section \<open>Further facts about pages\<close>

lemma nth_store_other:
  "lo + length s \<le> length b \<Longrightarrow> j < length b \<Longrightarrow> j < lo \<or> lo + length s \<le> j \<Longrightarrow>
   store b lo s ! j = b ! j"
  by (auto simp: nth_store)

lemma GetSlot_same_bytes:
  assumes l: "length (Ptr q) = length (Ptr p)" and fit: "i * 6 + 6 \<le> length (Ptr p)"
    and c: "cutBytes (Ptr q) (i * 6) (i * 6 + 6) = cutBytes (Ptr p) (i * 6) (i * 6 + 6)"
  shows "GetSlot q i = GetSlot p i"
proof -
  have sub: "cutBytes (Ptr q) a b = cutBytes (Ptr p) a b" if "i * 6 \<le> a" "a \<le> b" "b \<le> i * 6 + 6" for a b
  proof -
    have "cutBytes (Ptr q) a b = cutBytes (cutBytes (Ptr q) (i * 6) (i * 6 + 6)) (a - i * 6) (b - i * 6)"
      by (rule cut_sub [OF refl]) (use that l fit in simp_all)
    also have "\<dots> = cutBytes (cutBytes (Ptr p) (i * 6) (i * 6 + 6)) (a - i * 6) (b - i * 6)"
      by (simp only: c)
    also have "\<dots> = cutBytes (Ptr p) a b"
      by (rule cut_sub [OF refl, symmetric]) (use that l fit in simp_all)
    finally show ?thesis .
  qed
  have "sliceBytes (Ptr q) (i * 6) (i * 6 + 2) = sliceBytes (Ptr p) (i * 6) (i * 6 + 2)"
    "sliceBytes (Ptr q) (i * 6 + 2) (i * 6 + 4) = sliceBytes (Ptr p) (i * 6 + 2) (i * 6 + 4)"
    "sliceBytes (Ptr q) (i * 6 + 4) (i * 6 + 6) = sliceBytes (Ptr p) (i * 6 + 4) (i * 6 + 6)"
    using l fit by (simp_all add: sliceBytes_def sub)
  then show ?thesis
    unfolding GetSlot_def Let_def by (simp only:)
qed

lemma page1_fields:
  "unat (Count page1) = 1" "unat (DataStart page1) = 4070" "unat (FreeSpace page1) = 4064"
  "length (Ptr page1) = 4080" "Count page1 \<noteq> 0" "dataTop page1 = DataStart page1"
proof -
  note sp = WriteRecord_space [OF spaceOk_page0 write_page1]
  have c0: "Count page0 = 0" by (simp add: page0_def CreatePage_page)
  from sp(5) c0 show "unat (Count page1) = 1" by simp
  from sp(4) c0 show "unat (DataStart page1) = 4070" by (simp add: recordSize_def dataTop_def)
  show "unat (FreeSpace page1) = 4064" by (rule FreeSpace_page1)
  from sp(1) show "length (Ptr page1) = 4080" by (simp add: spaceOk_def)
  from sp(2) show "Count page1 \<noteq> 0" .
  from sp(2) show "dataTop page1 = DataStart page1" by (rule dataTop_nonempty)
qed

lemma page2_fields:
  "unat (Count page2) = 2" "unat (DataStart page2) = 4060" "unat (FreeSpace page2) = 4048"
  "length (Ptr page2) = 4080"
proof -
  note sp = WriteRecord_space [OF spaceOk_page1 write_page2]
  from sp(5) show "unat (Count page2) = 2" by (simp add: page1_fields)
  from sp(4) show "unat (DataStart page2) = 4060" by (simp add: recordSize_def page1_fields)
  from sp(3) show "unat (FreeSpace page2) = 4048" by (simp add: recordSize_def page1_fields)
  from sp(1) show "length (Ptr page2) = 4080" by (simp add: spaceOk_def)
qed

lemma holds_page1: "holds page1 [(''a'', ''hello'')]"
  using holds_WriteRecord [OF holds_page0 write_page1] by simp

lemma write_stale: "WriteRecord stalePage ''a'' ''b'' =
    (None, stalePage\<lparr>DataStart := 4074, Count := 1, FreeSpace := 88,
       Ptr := store (store (replicate 4080 0) 4074 (recordBytes (''a'', ''b''))) 0
                (slotBytes \<lparr>offset = 4074, len = 6, flag = 0\<rparr>)\<rparr>)"
  using WriteRecord_ok [of "''a''" "''b''" stalePage]
  by (simp add: stalePage_def recordSize_def nextStart_def dataTop_def newSlot_def)

lemma firstMatch_absent:
  "key \<notin> fst ` set kvs \<Longrightarrow> firstMatch (kvs @ (key, val) # rest) key = (val, True)"
  by (induction kvs) (auto simp: firstMatch_def)

lemma write_dup: "WriteRecord page1 ''a'' ''world'' = (None, snd (WriteRecord page1 ''a'' ''world''))"
  by (rule WriteRecord_success [OF spaceOk_page1]) (simp_all add: recordSize_def FreeSpace_page1)

lemma GetSlot_holds:
  assumes h: "holds p kvs" and i: "i < length kvs"
  shows "GetSlot p i = Inr \<lparr>offset = of_nat (recAt kvs i), len = of_nat (recordSize (kvs ! i)), flag = 0\<rparr>"
proof -
  note cb = holds_count_bound [OF h]
  from h i have sl: "cutBytes (Ptr p) (i * 6) (i * 6 + 6)
          = slotBytes \<lparr>offset = of_nat (recAt kvs i), len = of_nat (recordSize (kvs ! i)), flag = 0\<rparr>"
    by (simp add: holds_def)
  from i cb have "i * 6 + 6 \<le> length (Ptr p)" by simp
  from GetSlot_of_cut [OF sl this] show ?thesis .
qed

lemma write_empty_dup:
  "WriteRecord page0 '''' ''x'' = (None, snd (WriteRecord page0 '''' ''x''))"
  "WriteRecord (snd (WriteRecord page0 '''' ''x'')) '''' ''y''
     = (None, snd (WriteRecord (snd (WriteRecord page0 '''' ''x'')) '''' ''y''))"
proof -
  show a: "WriteRecord page0 '''' ''x'' = (None, snd (WriteRecord page0 '''' ''x''))"
    by (rule WriteRecord_success [OF spaceOk_page0]) (simp_all add: recordSize_def FreeSpace_page0)
  note sp = WriteRecord_space [OF spaceOk_page0 a]
  from sp(3) have "unat (FreeSpace (snd (WriteRecord page0 '''' ''x''))) = 4069"
    by (simp add: recordSize_def FreeSpace_page0)
  then show "WriteRecord (snd (WriteRecord page0 '''' ''x'')) '''' ''y''
     = (None, snd (WriteRecord (snd (WriteRecord page0 '''' ''x'')) '''' ''y''))"
    by (intro WriteRecord_success [OF sp(1)]) (simp_all add: recordSize_def)
qed

lemma length_le32 [simp]: "length (le32 v) = 4"
  by (simp add: le32_def)

lemma length_le64 [simp]: "length (le64 v) = 8"
  by (simp add: le64_def)

lemma Uint32_le32 [simp]: "Uint32 (le32 v) = v"
  unfolding Uint32_def le32_def
proof (rule bit_word_eqI, goal_cases)
  case (1 n)
  then have "n < 32" by simp
  then consider "n < 8" | "8 \<le> n" "n < 16" | "16 \<le> n" "n < 24" | "24 \<le> n" "n < 32"
    by linarith
  then show ?case
    by cases (auto simp add: bit_simps)
qed

lemma Uint64_le64 [simp]: "Uint64 (le64 v) = v"
  unfolding Uint64_def le64_def
proof (rule bit_word_eqI, goal_cases)
  case (1 n)
  then have "n < 64" by simp
  then consider "n < 8" | "8 \<le> n" "n < 16" | "16 \<le> n" "n < 24" | "24 \<le> n" "n < 32"
     | "32 \<le> n" "n < 40" | "40 \<le> n" "n < 48" | "48 \<le> n" "n < 56" | "56 \<le> n" "n < 64"
    by linarith
  then show ?case
    by cases (auto simp add: bit_simps)
qed

lemma pageBytes_eq:
  assumes "length (Ptr p) = 4080"
  shows "pageBytes p = le64 (PageId p) @ le32 (Count p) @ le16 (FreeSpace p) @ le16 (DataStart p) @ Ptr p"
  using assms
  by (simp add: pageBytes_def Let_def store_def cutBytes_def PutUint64_def PutUint32_def PutUint16_def
      copy_go_def)

lemma parsePage_pageBytes:
  assumes "length (Ptr p) = 4080"
  shows "parsePage (pageBytes p) = p"
  using assms
  by (simp add: pageBytes_eq parsePage_def cutBytes_def copy_go_def)

section \<open>The page manager over a sound disk\<close>

lemma concat_chunk:
  "\<forall>x \<in> set xs. length x = n \<Longrightarrow> j < length xs \<Longrightarrow> take n (drop (n * j) (concat xs)) = xs ! j"
proof (induction xs arbitrary: j)
  case Nil
  then show ?case by simp
next
  case (Cons x xs)
  show ?case
  proof (cases j)
    case 0
    with Cons.prems show ?thesis by simp
  next
    case (Suc k)
    with Cons.prems have "take n (drop (n * k) (concat xs)) = xs ! k"
      by (intro Cons.IH) auto
    with Cons.prems Suc show ?thesis by (simp add: add.commute)
  qed
qed

lemma length_concat_chunks:
  "\<forall>x \<in> set xs. length x = n \<Longrightarrow> length (concat xs) = n * length xs"
  by (induction xs) auto

lemma store_Cons_chunk:
  "lo = length x + k \<Longrightarrow> store (x @ ys) lo s = x @ store ys k s"
  by (simp add: store_def)

lemma concat_store:
  "\<forall>x \<in> set xs. length x = n \<Longrightarrow> j < length xs \<Longrightarrow> length y = n \<Longrightarrow>
   store (concat xs) (n * j) y = concat (xs[j := y])"
proof (induction xs arbitrary: j)
  case Nil
  then show ?case by simp
next
  case (Cons x xs)
  show ?case
  proof (cases j)
    case 0
    with Cons.prems show ?thesis by (simp add: store_def)
  next
    case (Suc k)
    with Cons.prems have "store (concat xs) (n * k) y = concat (xs[k := y])"
      by (intro Cons.IH) auto
    moreover from Cons.prems Suc have "store (x @ concat xs) (n * j) y = x @ store (concat xs) (n * k) y"
      by (intro store_Cons_chunk) simp
    ultimately show ?thesis using Suc by simp
  qed
qed

lemma store_at_end: "lo = length b \<Longrightarrow> store b lo s = b @ s"
  by (simp add: store_def)

lemma length_pageBytes: "length (Ptr p) = 4080 \<Longrightarrow> length (pageBytes p) = 4096"
  by (simp add: pageBytes_eq)

lemma metaBytes_eq:
  "metaBytes m = le64 (NextPageId m) @ le64 (PageCount m) @ le64 (LastPageId m) @ replicate 4072 0"
  by (simp add: metaBytes_def Let_def store_def cutBytes_def PutUint64_def)

lemma length_metaBytes [simp]: "length (metaBytes m) = 4096"
  by (simp add: metaBytes_eq)

lemma sint_of_nat64: "n < 2 ^ 63 \<Longrightarrow> sint (of_nat n :: uint64) = int n"
  by (simp add: signed_of_nat signed_take_bit_int_eq_self)

lemma pageOffset_of_nat:
  assumes "n < 2 ^ 33"
  shows "pageOffset (of_nat n) = int (4096 * n)"
proof -
  have "(2::nat) ^ 33 * 4096 \<le> 2 ^ 63" by simp
  with assms have "4096 * n < 2 ^ 63"
    by linarith
  then have "sint (of_nat (4096 * n) :: uint64) = int (4096 * n)"
    by (rule sint_of_nat64)
  then show ?thesis
    by (simp add: pageOffset_def mult.commute)
qed

lemma onDisk_chunks:
  assumes "onDisk d pages"
  shows "\<forall>x \<in> set (map pageBytes pages). length x = 4096"
proof -
  from assms have "\<forall>i < length pages. length (Ptr (pages ! i)) = 4080"
    by (simp add: onDisk_def)
  then have "\<forall>p \<in> set pages. length (Ptr p) = 4080"
    by (metis in_set_conv_nth)
  then show ?thesis by (simp add: length_pageBytes)
qed

lemma Read_ok:
  assumes "noFaults d" "0 \<le> off" "nat off + n \<le> length (Contents (File d))"
  shows "Read d off n = (take n (drop (nat off) (Contents (File d))), None)"
  using assms by (simp add: Read_def ReadAt_def noFaults_def Let_def)

lemma Read_eof:
  assumes "length (Contents (File d)) \<le> nat off" "0 < n"
  shows "snd (Read d off n) \<noteq> None"
  using assms by (simp add: Read_def ReadAt_def Let_def)

lemma LoadPage_onDisk:
  assumes d: "onDisk (Disk pm) pages" and j: "j < length pages"
  shows "LoadPage pm (of_nat (Suc j)) = Inr (pages ! j)"
proof -
  from d j obtain meta where meta: "length meta = 4096"
    and c: "Contents (File (Disk pm)) = meta @ concat (map pageBytes pages)"
    by (auto simp: onDisk_def)
  from d j have "Suc j < 2 ^ 33" by (simp add: onDisk_def)
  then have off: "pageOffset (of_nat (Suc j)) = int (4096 * Suc j)"
    by (rule pageOffset_of_nat)
  note ch = onDisk_chunks [OF d]
  from length_concat_chunks [OF ch] have lc: "length (concat (map pageBytes pages)) = 4096 * length pages"
    by simp
  from d have nf: "noFaults (Disk pm)" by (simp add: onDisk_def)
  have "Read (Disk pm) (int (4096 * Suc j)) 4096
      = (take 4096 (drop (nat (int (4096 * Suc j))) (Contents (File (Disk pm)))), None)"
    by (rule Read_ok [OF nf]) (use j lc meta c in simp_all)
  also have "take 4096 (drop (nat (int (4096 * Suc j))) (Contents (File (Disk pm))))
      = take 4096 (drop (4096 * j) (concat (map pageBytes pages)))"
    unfolding nat_int using meta c by simp
  also have "\<dots> = map pageBytes pages ! j"
    by (rule concat_chunk [OF ch]) (use j in simp)
  finally have "Read (Disk pm) (int (4096 * Suc j)) 4096 = (pageBytes (pages ! j), None)"
    using j by simp
  moreover from d j have "length (Ptr (pages ! j)) = 4080" by (simp add: onDisk_def)
  ultimately show ?thesis
    unfolding LoadPage_def off by (simp add: parsePage_pageBytes)
qed

lemma LoadPage_empty:
  assumes d: "onDisk (Disk pm) []"
  shows "\<exists>e. LoadPage pm 1 = Inl e"
proof -
  from d have "length (Contents (File (Disk pm))) \<le> 4096" by (auto simp: onDisk_def)
  moreover have "pageOffset 1 = 4096" by (simp add: pageOffset_def)
  ultimately have "snd (Read (Disk pm) (pageOffset 1) 4096) \<noteq> None"
    by (intro Read_eof) simp_all
  then show ?thesis
    by (auto simp: LoadPage_def split: prod.splits option.splits)
qed

lemma Write_ok:
  assumes "noFaults d" "0 \<le> off"
  shows "Write d off data = ((1, None),
     d\<lparr>File := (File d)\<lparr>Contents :=
       store (Contents (File d) @ replicate (nat off - length (Contents (File d))) 0) (nat off) data\<rparr>\<rparr>)"
  using assms by (simp add: Write_def WriteAt_def noFaults_def Let_def)

lemma noFaults_write [simp]: "noFaults (d\<lparr>File := (File d)\<lparr>Contents := c\<rparr>\<rparr>) = noFaults d"
  by (simp add: noFaults_def)

lemma writePage_existing:
  assumes d: "onDisk (Disk pm) pages" and j: "j < length pages"
    and id: "PageId p = of_nat (Suc j)" and len: "length (Ptr p) = 4080"
  shows "\<exists>d'. writePageToDisk pm p = (None, pm\<lparr>Disk := d'\<rparr>) \<and> onDisk d' (pages[j := p])"
proof -
  let ?C = "concat (map pageBytes pages)"
  from d j obtain meta where meta: "length meta = 4096"
    and c: "Contents (File (Disk pm)) = meta @ ?C"
    by (auto simp: onDisk_def)
  from d j have "Suc j < 2 ^ 33" by (simp add: onDisk_def)
  then have off: "pageOffset (PageId p) = int (4096 * Suc j)"
    unfolding id by (rule pageOffset_of_nat)
  note ch = onDisk_chunks [OF d]
  from length_concat_chunks [OF ch] have lc: "length ?C = 4096 * length pages"
    by simp
  from d have nf: "noFaults (Disk pm)" by (simp add: onDisk_def)
  let ?c' = "store (Contents (File (Disk pm)) @ replicate (nat (int (4096 * Suc j)) - length (Contents (File (Disk pm)))) 0)
      (nat (int (4096 * Suc j))) (pageBytes p)"
  let ?d' = "(Disk pm)\<lparr>File := (File (Disk pm))\<lparr>Contents := ?c'\<rparr>\<rparr>"
  have w: "Write (Disk pm) (int (4096 * Suc j)) (pageBytes p) = ((1, None), ?d')"
    by (rule Write_ok [OF nf]) simp
  have "?c' = store (meta @ ?C) (4096 * Suc j) (pageBytes p)"
    unfolding nat_int using c meta lc j by simp
  also have "\<dots> = meta @ store ?C (4096 * j) (pageBytes p)"
    by (rule store_Cons_chunk) (simp add: meta)
  also have "store ?C (4096 * j) (pageBytes p) = concat ((map pageBytes pages)[j := pageBytes p])"
    by (rule concat_store [OF ch]) (use j len in \<open>simp_all add: length_pageBytes\<close>)
  also have "(map pageBytes pages)[j := pageBytes p] = map pageBytes (pages[j := p])"
    by (simp add: map_update)
  finally have c': "?c' = meta @ concat (map pageBytes (pages[j := p]))" .
  have ids: "\<forall>i < length (pages[j := p]). PageId (pages[j := p] ! i) = of_nat (Suc i) \<and>
        length (Ptr (pages[j := p] ! i)) = 4080"
    using d id len j by (auto simp: onDisk_def nth_list_update)
  have "onDisk ?d' (pages[j := p])"
    unfolding onDisk_def using nf d meta c' ids
    by (auto simp: onDisk_def)
  with w off show ?thesis
    by (auto simp: writePageToDisk_def)
qed

lemma writePage_append:
  assumes d: "onDisk (Disk pm) pages"
    and id: "PageId p = of_nat (Suc (length pages))" and len: "length (Ptr p) = 4080"
    and bound: "Suc (length pages) < 2 ^ 32"
  shows "\<exists>d'. writePageToDisk pm p = (None, pm\<lparr>Disk := d'\<rparr>) \<and> onDisk d' (pages @ [p])"
proof -
  let ?n = "length pages"
  let ?C = "concat (map pageBytes pages)"
  from d obtain meta where meta: "length meta \<le> 4096" "pages \<noteq> [] \<longrightarrow> length meta = 4096"
    and c: "Contents (File (Disk pm)) = meta @ ?C"
    by (auto simp: onDisk_def)
  from bound have "Suc ?n < 2 ^ 33" by simp
  then have off: "pageOffset (PageId p) = int (4096 * Suc ?n)"
    unfolding id by (rule pageOffset_of_nat)
  note ch = onDisk_chunks [OF d]
  from length_concat_chunks [OF ch] have lc: "length ?C = 4096 * ?n"
    by simp
  from d have nf: "noFaults (Disk pm)" by (simp add: onDisk_def)
  let ?pad = "Contents (File (Disk pm)) @ replicate (nat (int (4096 * Suc ?n)) - length (Contents (File (Disk pm)))) 0"
  let ?c' = "store ?pad (nat (int (4096 * Suc ?n))) (pageBytes p)"
  let ?d' = "(Disk pm)\<lparr>File := (File (Disk pm))\<lparr>Contents := ?c'\<rparr>\<rparr>"
  let ?meta' = "meta @ replicate (4096 - length meta) 0"
  have w: "Write (Disk pm) (int (4096 * Suc ?n)) (pageBytes p) = ((1, None), ?d')"
    by (rule Write_ok [OF nf]) simp
  have lcont: "length (Contents (File (Disk pm))) = length meta + 4096 * ?n"
    using c lc by simp
  have lp: "length ?pad = 4096 * Suc ?n"
    unfolding nat_int using lcont meta(1) by simp
  have "?pad = ?meta' @ ?C"
  proof (cases "pages = []")
    case True
    then show ?thesis unfolding nat_int using c by simp
  next
    case False
    with meta have "length meta = 4096" by simp
    then show ?thesis unfolding nat_int using c lc by simp
  qed
  moreover have "?c' = ?pad @ pageBytes p"
    by (rule store_at_end) (simp only: nat_int lp [unfolded nat_int])
  ultimately have c': "?c' = ?meta' @ concat (map pageBytes (pages @ [p]))"
    by simp
  have lm: "length ?meta' = 4096" using meta by simp
  have ids: "\<forall>i < length (pages @ [p]). PageId ((pages @ [p]) ! i) = of_nat (Suc i) \<and>
        length (Ptr ((pages @ [p]) ! i)) = 4080"
    using d id len by (auto simp: onDisk_def nth_append less_Suc_eq)
  have "onDisk ?d' (pages @ [p])"
    unfolding onDisk_def using nf bound c' lm ids
    by (intro conjI exI [of _ ?meta']) simp_all
  with w off show ?thesis
    by (auto simp: writePageToDisk_def)
qed

lemma SaveMeta_onDisk:
  assumes d: "onDisk (Disk pm) pages" and ne: "pages \<noteq> []"
  shows "\<exists>d'. SaveMetaDataPage pm = (None, pm\<lparr>Disk := d'\<rparr>) \<and> onDisk d' pages"
proof -
  let ?C = "concat (map pageBytes pages)"
  let ?mb = "metaBytes (MetaData pm)"
  from d ne obtain meta where meta: "length meta = 4096"
    and c: "Contents (File (Disk pm)) = meta @ ?C"
    by (auto simp: onDisk_def)
  from d have nf: "noFaults (Disk pm)" by (simp add: onDisk_def)
  let ?c' = "store (Contents (File (Disk pm)) @ replicate (nat 0 - length (Contents (File (Disk pm)))) 0) (nat 0) ?mb"
  let ?d' = "(Disk pm)\<lparr>File := (File (Disk pm))\<lparr>Contents := ?c'\<rparr>\<rparr>"
  have w: "Write (Disk pm) 0 ?mb = ((1, None), ?d')"
    by (rule Write_ok [OF nf]) simp
  have c': "?c' = ?mb @ ?C"
    using c meta by (simp add: store_def)
  have "onDisk ?d' pages"
    unfolding onDisk_def using nf d c'
    by (intro conjI exI [of _ ?mb]) (simp_all add: onDisk_def)
  with w show ?thesis
    by (auto simp: SaveMetaDataPage_def)
qed

lemma of_nat_le64:
  assumes "a < 2 ^ 33" "b < 2 ^ 33"
  shows "(of_nat a :: uint64) \<le> of_nat b \<longleftrightarrow> a \<le> b"
proof -
  have "(2::nat) ^ 33 < 2 ^ 64" by simp
  with assms have "a < 2 ^ 64" "b < 2 ^ 64" by linarith+
  then show ?thesis
    by (simp add: word_le_nat_alt unat_of_nat)
qed

lemma find_loop:
  assumes d: "onDisk (Disk pm) pages" and last: "LastPageId (MetaData pm) = of_nat (length pages)"
    and j: "j \<le> length pages"
  shows "findPageWithSpace_from pm rs (of_nat (Suc j))
     = Some (case find (\<lambda>p. HasSpace p rs) (drop j pages) of
               None \<Rightarrow> Inl NoSpaceAvailable | Some p \<Rightarrow> Inr p)"
  using j
proof (induction "length pages - j" arbitrary: j)
  case 0
  then have j: "j = length pages" by simp
  from d have "length pages < 2 ^ 32" by (simp add: onDisk_def)
  then have "\<not> (of_nat (Suc (length pages)) :: uint64) \<le> of_nat (length pages)"
    by (subst of_nat_le64) simp_all
  then show ?case
    by (subst findPageWithSpace_from.simps) (simp add: j last)
next
  case (Suc m)
  then have j: "j < length pages" by simp
  from d have b: "length pages < 2 ^ 32" by (simp add: onDisk_def)
  with j have le: "(of_nat (Suc j) :: uint64) \<le> of_nat (length pages)"
    by (subst of_nat_le64) simp_all
  have nx: "(of_nat (Suc j) :: uint64) + 1 = of_nat (Suc (Suc j))" by simp
  from Suc.hyps(2) have "m = length pages - Suc j" by simp
  from Suc.hyps(1) [OF this] j
  have ih: "findPageWithSpace_from pm rs (of_nat (Suc (Suc j)))
     = Some (case find (\<lambda>p. HasSpace p rs) (drop (Suc j) pages) of
               None \<Rightarrow> Inl NoSpaceAvailable | Some p \<Rightarrow> Inr p)"
    by simp
  from j have dr: "drop j pages = pages ! j # drop (Suc j) pages"
    using Cons_nth_drop_Suc [of j pages] by simp
  show ?case
    by (subst findPageWithSpace_from.simps)
      (simp only: last le if_True LoadPage_onDisk [OF d j] sum.case nx ih dr find.simps, simp)
qed

lemma find_loop_empty:
  assumes d: "onDisk (Disk pm) []" and last: "LastPageId (MetaData pm) = 1"
  shows "findPageWithSpace pm rs = Some (Inl NoSpaceAvailable)"
proof -
  from LoadPage_empty [OF d] obtain e where e: "LoadPage pm 1 = Inl e" ..
  have "\<not> (2::uint64) \<le> 1" by (simp add: word_le_nat_alt)
  then have "findPageWithSpace_from pm rs 2 = Some (Inl NoSpaceAvailable)"
    by (subst findPageWithSpace_from.simps) (simp add: last)
  then show ?thesis
    unfolding findPageWithSpace_def
    by (subst findPageWithSpace_from.simps) (simp add: last e)
qed

lemma findPageWithSpace_stored:
  assumes "stored pm pages"
  shows "findPageWithSpace pm rs
     = Some (case find (\<lambda>p. HasSpace p rs) pages of None \<Rightarrow> Inl NoSpaceAvailable | Some p \<Rightarrow> Inr p)"
proof (cases "pages = []")
  case True
  with assms find_loop_empty [of pm rs] show ?thesis
    by (simp add: stored_def)
next
  case False
  then have "max 1 (length pages) = length pages"
    by (cases pages) simp_all
  with assms have "LastPageId (MetaData pm) = of_nat (length pages)" "onDisk (Disk pm) pages"
    by (simp_all add: stored_def)
  from find_loop [OF this(2,1), of 0 rs] show ?thesis
    by (simp add: findPageWithSpace_def)
qed

lemma findFirst_loop:
  assumes d: "onDisk (Disk pm) pages" and last: "LastPageId (MetaData pm) = of_nat (length pages)"
    and h: "list_all2 holds pages kvss" and j: "j \<le> length pages"
  shows "FindRecord_from pm key (of_nat (Suc j)) = Some (findFirst (drop j kvss) key)"
  using j
proof (induction "length pages - j" arbitrary: j)
  case 0
  then have j: "j = length pages" by simp
  from h have "length kvss = length pages" by (simp add: list_all2_lengthD)
  from d have "length pages < 2 ^ 32" by (simp add: onDisk_def)
  then have "\<not> (of_nat (Suc (length pages)) :: uint64) \<le> of_nat (length pages)"
    by (subst of_nat_le64) simp_all
  then show ?case
    by (subst FindRecord_from.simps) (simp add: j last \<open>length kvss = length pages\<close>)
next
  case (Suc m)
  then have j: "j < length pages" by simp
  from h have lk: "length kvss = length pages" by (simp add: list_all2_lengthD)
  from d have b: "length pages < 2 ^ 32" by (simp add: onDisk_def)
  with j have le: "(of_nat (Suc j) :: uint64) \<le> of_nat (length pages)"
    by (subst of_nat_le64) simp_all
  have nx: "(of_nat (Suc j) :: uint64) + 1 = of_nat (Suc (Suc j))" by simp
  from Suc.hyps(2) have "m = length pages - Suc j" by simp
  from Suc.hyps(1) [OF this] j
  have ih: "FindRecord_from pm key (of_nat (Suc (Suc j))) = Some (findFirst (drop (Suc j) kvss) key)"
    by simp
  from j lk have dr: "drop j kvss = kvss ! j # drop (Suc j) kvss"
    using Cons_nth_drop_Suc [of j kvss] by simp
  from h j have "holds (pages ! j) (kvss ! j)" by (simp add: list_all2_nthD)
  then have rd: "ReadRecord (pages ! j) key = Inr (firstMatch (kvss ! j) key)"
    by (rule ReadRecord_holds)
  show ?case
    by (subst FindRecord_from.simps)
      (simp only: last le if_True LoadPage_onDisk [OF d j] sum.case nx ih dr rd,
        simp add: firstMatch_def split: option.split)
qed

lemma FindRecord_storedKV:
  assumes "storedKV pm kvss"
  shows "FindRecord pm key = Some (findFirst kvss key)"
proof -
  from assms obtain pages where s: "stored pm pages" and h: "list_all2 holds pages kvss"
    by (auto simp: storedKV_def)
  show ?thesis
  proof (cases "pages = []")
    case True
    with h have k: "kvss = []" by simp
    from s True have d: "onDisk (Disk pm) []" and last: "LastPageId (MetaData pm) = 1"
      by (simp_all add: stored_def)
    from LoadPage_empty [OF d] obtain e where e: "LoadPage pm 1 = Inl e" ..
    have "\<not> (2::uint64) \<le> 1" by (simp add: word_le_nat_alt)
    then have "FindRecord_from pm key 2 = Some (Inl KeyNotFound)"
      by (subst FindRecord_from.simps) (simp add: last)
    then show ?thesis
      unfolding FindRecord_def
      by (subst FindRecord_from.simps) (simp add: last e k)
  next
    case False
    then have "max 1 (length pages) = length pages"
      by (cases pages) simp_all
    with s have "LastPageId (MetaData pm) = of_nat (length pages)" "onDisk (Disk pm) pages"
      by (simp_all add: stored_def)
    from findFirst_loop [OF this(2,1) h, of 0 key] show ?thesis
      by (simp add: FindRecord_def)
  qed
qed

lemma holds_free: "holds p kvs \<Longrightarrow> unat (FreeSpace p) = freeOf kvs"
  by (auto simp: holds_def spaceOk_def freeOf_def)

lemma HasSpace_holds: "holds p kvs \<Longrightarrow> HasSpace p rs \<longleftrightarrow> rs \<le> freeOf kvs"
  by (simp add: HasSpace_def holds_free)

lemma placeRecord_none:
  "\<forall>kvs \<in> set kvss. \<not> recordSize kv \<le> freeOf kvs \<Longrightarrow> placeRecord kvss kv = Inr (kvss @ [[kv]])"
  by (induction kvss) simp_all

lemma placeRecord_at:
  assumes "j < length kvss" "recordSize kv \<le> freeOf (kvss ! j)"
    and "\<forall>i < j. \<not> recordSize kv \<le> freeOf (kvss ! i)"
  shows "placeRecord kvss kv =
    (if recordSize kv + 6 \<le> freeOf (kvss ! j) then Inr (kvss[j := kvss ! j @ [kv]])
     else Inl InsufficientSpace)"
  using assms
proof (induction kvss arbitrary: j)
  case Nil
  then show ?case by simp
next
  case (Cons kvs rest)
  show ?case
  proof (cases j)
    case 0
    with Cons.prems show ?thesis by simp
  next
    case (Suc m)
    with Cons.prems have a: "\<not> recordSize kv \<le> freeOf kvs" by auto
    from Cons.prems Suc have "placeRecord rest kv =
      (if recordSize kv + 6 \<le> freeOf (rest ! m) then Inr (rest[m := rest ! m @ [kv]])
       else Inl InsufficientSpace)"
      by (intro Cons.IH) auto
    with a Suc show ?thesis by simp
  qed
qed

lemma WriteRecord_full:
  assumes "length k \<le> 400" "length v \<le> 400" "unat (FreeSpace p) < recordSize (k, v) + 6"
  shows "WriteRecord p k v = (Some InsufficientSpace, p)"
  using assms by (simp add: WriteRecord_def recordSize_def)

lemma CreatePage_manager:
  "Disk (snd (CreatePage pm)) = Disk pm"
  "LastPageId (MetaData (snd (CreatePage pm))) = NextPageId (MetaData pm)"
  "NextPageId (MetaData (snd (CreatePage pm))) = NextPageId (MetaData pm) + 1"
  "PageId (fst (CreatePage pm)) = NextPageId (MetaData pm)"
  by (simp_all add: CreatePage_def Let_def)

lemma InsertRecord_new_page:
  assumes s: "stored pm pages" and h: "list_all2 holds pages kvss"
    and f: "find (\<lambda>p. HasSpace p (recordSize (k, v))) pages = None"
    and sz: "length k \<le> 400" "length v \<le> 400" and bound: "Suc (length pages) < 2 ^ 32"
  shows "\<exists>pm'. InsertRecord pm k v = Some (None, pm') \<and> storedKV pm' (kvss @ [[(k, v)]])"
proof -
  let ?n = "length pages"
  let ?p0 = "fst (CreatePage pm)"
  let ?pm1 = "snd (CreatePage pm)"
  from s have d: "onDisk (Disk pm) pages" and nx: "NextPageId (MetaData pm) = of_nat ?n + 1"
    by (simp_all add: stored_def)
  have id0: "PageId ?p0 = of_nat (Suc ?n)" by (simp add: CreatePage_manager nx)
  have len0: "length (Ptr ?p0) = 4080" by (simp add: CreatePage_page)
  from d have d1: "onDisk (Disk ?pm1) pages" by (simp add: CreatePage_manager)
  from writePage_append [OF d1 id0 len0 bound] obtain d2
    where w1: "writePageToDisk ?pm1 ?p0 = (None, ?pm1\<lparr>Disk := d2\<rparr>)" and d2: "onDisk d2 (pages @ [?p0])"
    by blast
  let ?pm2 = "?pm1\<lparr>Disk := d2\<rparr>"
  from d2 have "onDisk (Disk ?pm2) (pages @ [?p0])" by simp
  from SaveMeta_onDisk [OF this] obtain d3
    where sm: "SaveMetaDataPage ?pm2 = (None, ?pm2\<lparr>Disk := d3\<rparr>)" and d3: "onDisk d3 (pages @ [?p0])"
    by auto
  let ?pm3 = "?pm2\<lparr>Disk := d3\<rparr>"
  have f0: "unat (FreeSpace ?p0) = 4080" by (simp add: CreatePage_page)
  have wr: "WriteRecord ?p0 k v = (None, snd (WriteRecord ?p0 k v))"
    by (rule WriteRecord_success [OF spaceOk_CreatePage sz]) (use sz in \<open>simp add: recordSize_def f0\<close>)
  let ?p' = "snd (WriteRecord ?p0 k v)"
  note sp = WriteRecord_space [OF spaceOk_CreatePage wr]
  from sp(6) id0 have id': "PageId ?p' = of_nat (Suc ?n)" by simp
  from sp(1) have len': "length (Ptr ?p') = 4080" by (simp add: spaceOk_def)
  from d3 have "onDisk (Disk ?pm3) (pages @ [?p0])" by simp
  from writePage_existing [OF this _ id' len', simplified] obtain d4
    where w2: "writePageToDisk ?pm3 ?p' = (None, ?pm3\<lparr>Disk := d4\<rparr>)" and d4: "onDisk d4 (pages @ [?p'])"
    by auto
  let ?pm4 = "?pm3\<lparr>Disk := d4\<rparr>"
  have st: "stored ?pm4 (pages @ [?p'])"
    using d4 by (simp add: stored_def CreatePage_manager nx)
  from holds_WriteRecord [OF holds_CreatePage wr] have "holds ?p' [(k, v)]" by simp
  with h have "list_all2 holds (pages @ [?p']) (kvss @ [[(k, v)]])"
    by (simp add: list_all2_appendI)
  with st have kv: "storedKV ?pm4 (kvss @ [[(k, v)]])"
    by (auto simp: storedKV_def)
  have fp: "findPageWithSpace pm (recordSize (k, v)) = Some (Inl NoSpaceAvailable)"
    using findPageWithSpace_stored [OF s, of "recordSize (k, v)"] f by simp
  have wf: "fst (WriteRecord ?p0 k v) = None"
    using wr by (metis fst_conv)
  have "InsertRecord pm k v = Some (None, ?pm4)"
    unfolding InsertRecord_def Let_def
    using fp w1 sm wf w2
    by (simp add: recordSize_def split_beta split: prod.split)
  with kv show ?thesis by blast
qed

lemma InsertRecord_existing_page:
  assumes s: "stored pm pages" and h: "list_all2 holds pages kvss"
    and f: "find (\<lambda>p. HasSpace p (recordSize (k, v))) pages = Some p"
    and sz: "length k \<le> 400" "length v \<le> 400"
  shows "\<exists>j < length kvss. p = pages ! j \<and> recordSize (k, v) \<le> freeOf (kvss ! j)
     \<and> (\<forall>i < j. \<not> recordSize (k, v) \<le> freeOf (kvss ! i))
     \<and> (if recordSize (k, v) + 6 \<le> freeOf (kvss ! j)
         then \<exists>pm'. InsertRecord pm k v = Some (None, pm') \<and> storedKV pm' (kvss[j := kvss ! j @ [(k, v)]])
         else InsertRecord pm k v = Some (Some InsufficientSpace, pm))"
proof -
  let ?rs = "recordSize (k, v)"
  from h have lk: "length kvss = length pages" by (simp add: list_all2_lengthD)
  from f obtain j where j: "j < length pages" and pj: "p = pages ! j" and P: "HasSpace p ?rs"
    and before: "\<forall>i < j. \<not> HasSpace (pages ! i) ?rs"
    by (auto simp: find_Some_iff)
  from h j have hj: "holds (pages ! j) (kvss ! j)" by (simp add: list_all2_nthD)
  from HasSpace_holds [OF hj, of ?rs] P pj have fits: "?rs \<le> freeOf (kvss ! j)" by simp
  have bef: "\<forall>i < j. \<not> ?rs \<le> freeOf (kvss ! i)"
  proof (intro allI impI)
    fix i assume i: "i < j"
    with j h have "holds (pages ! i) (kvss ! i)" by (simp add: list_all2_nthD)
    from HasSpace_holds [OF this, of ?rs] before i show "\<not> ?rs \<le> freeOf (kvss ! i)" by simp
  qed
  from s have d: "onDisk (Disk pm) pages" by (simp add: stored_def)
  have fp: "findPageWithSpace pm ?rs = Some (Inr p)"
    using findPageWithSpace_stored [OF s, of ?rs] f by simp
  have ins: "InsertRecord pm k v
      = Some (case WriteRecord p k v of (Some e, q) \<Rightarrow> (Some e, pm) | (None, q) \<Rightarrow> writePageToDisk pm q)"
    unfolding InsertRecord_def Let_def using fp
    by (simp add: recordSize_def split: prod.split option.split)
  have "if ?rs + 6 \<le> freeOf (kvss ! j)
         then \<exists>pm'. InsertRecord pm k v = Some (None, pm') \<and> storedKV pm' (kvss[j := kvss ! j @ [(k, v)]])
         else InsertRecord pm k v = Some (Some InsufficientSpace, pm)"
  proof (cases "?rs + 6 \<le> freeOf (kvss ! j)")
    case True
    from hj have ok: "spaceOk p" by (simp add: holds_def pj)
    from True hj have room: "?rs + 6 \<le> unat (FreeSpace p)" by (simp add: holds_free pj)
    from WriteRecord_success [OF ok sz room] have wr: "WriteRecord p k v = (None, snd (WriteRecord p k v))" .
    let ?p' = "snd (WriteRecord p k v)"
    note sp = WriteRecord_space [OF ok wr]
    from d j have "PageId p = of_nat (Suc j)" by (simp add: onDisk_def pj)
    with sp(6) have id': "PageId ?p' = of_nat (Suc j)" by simp
    from sp(1) have len': "length (Ptr ?p') = 4080" by (simp add: spaceOk_def)
    from writePage_existing [OF d j id' len'] obtain d'
      where w: "writePageToDisk pm ?p' = (None, pm\<lparr>Disk := d'\<rparr>)" and d': "onDisk d' (pages[j := ?p'])"
      by blast
    from s d' have st: "stored (pm\<lparr>Disk := d'\<rparr>) (pages[j := ?p'])"
      by (simp add: stored_def)
    from holds_WriteRecord [OF hj [folded pj] wr] have "holds ?p' (kvss ! j @ [(k, v)])" .
    with h have "list_all2 holds (pages[j := ?p']) (kvss[j := kvss ! j @ [(k, v)]])"
      by (simp add: list_all2_update_cong)
    with st have "storedKV (pm\<lparr>Disk := d'\<rparr>) (kvss[j := kvss ! j @ [(k, v)]])"
      by (auto simp: storedKV_def)
    moreover have "fst (WriteRecord p k v) = None" using wr by (metis fst_conv)
    then have "InsertRecord pm k v = Some (None, pm\<lparr>Disk := d'\<rparr>)"
      using ins w by (simp add: split_beta)
    ultimately show ?thesis using True by auto
  next
    case False
    with hj have "unat (FreeSpace p) < ?rs + 6" by (simp add: holds_free pj)
    from WriteRecord_full [OF sz this] ins False show ?thesis by simp
  qed
  with j lk pj fits bef show ?thesis by auto
qed

lemma InsertRecord_storedKV:
  assumes s: "storedKV pm kvss" and sz: "length k \<le> 400" "length v \<le> 400"
    and bound: "Suc (length kvss) < 2 ^ 32"
  shows "\<exists>pm'. InsertRecord pm k v
        = Some (case placeRecord kvss (k, v) of Inl e \<Rightarrow> Some e | Inr kvss' \<Rightarrow> None, pm')
     \<and> (case placeRecord kvss (k, v) of Inl e \<Rightarrow> pm' = pm | Inr kvss' \<Rightarrow> storedKV pm' kvss')"
proof -
  let ?rs = "recordSize (k, v)"
  from s obtain pages where st: "stored pm pages" and h: "list_all2 holds pages kvss"
    by (auto simp: storedKV_def)
  from h have lk: "length kvss = length pages" by (simp add: list_all2_lengthD)
  show ?thesis
  proof (cases "find (\<lambda>p. HasSpace p ?rs) pages")
    case None
    then have no: "\<forall>p \<in> set pages. \<not> HasSpace p ?rs" by (simp add: find_None_iff)
    have "\<forall>kvs \<in> set kvss. \<not> ?rs \<le> freeOf kvs"
    proof
      fix kvs assume "kvs \<in> set kvss"
      then obtain i where i: "i < length kvss" "kvs = kvss ! i" by (metis in_set_conv_nth)
      with h lk have "holds (pages ! i) kvs" by (simp add: list_all2_nthD)
      from HasSpace_holds [OF this, of ?rs] i lk no show "\<not> ?rs \<le> freeOf kvs" by simp
    qed
    then have pl: "placeRecord kvss (k, v) = Inr (kvss @ [[(k, v)]])"
      by (rule placeRecord_none)
    from bound lk have "Suc (length pages) < 2 ^ 32" by simp
    from InsertRecord_new_page [OF st h None sz this] pl show ?thesis
      by auto
  next
    case (Some p)
    from InsertRecord_existing_page [OF st h Some sz] obtain j where j: "j < length kvss"
      and fits: "?rs \<le> freeOf (kvss ! j)" and bef: "\<forall>i < j. \<not> ?rs \<le> freeOf (kvss ! i)"
      and res: "if ?rs + 6 \<le> freeOf (kvss ! j)
         then \<exists>pm'. InsertRecord pm k v = Some (None, pm') \<and> storedKV pm' (kvss[j := kvss ! j @ [(k, v)]])
         else InsertRecord pm k v = Some (Some InsufficientSpace, pm)"
      by blast
    from placeRecord_at [OF j fits bef] res show ?thesis
      by (auto split: if_splits)
  qed
qed

lemma storedKV_new:
  assumes "noFaults d" "length (Contents (File d)) \<le> 4096"
  shows "storedKV (NewPageManager d) []"
  using assms by (simp add: storedKV_def stored_def onDisk_def NewPageManager_def)

section \<open>Sequences of insertions\<close>

lemma length_placeRecord:
  "placeRecord kvss kv = Inr kvss' \<Longrightarrow> length kvss' \<le> Suc (length kvss)"
  by (induction kvss arbitrary: kvss') (auto split: if_splits sum.splits)

lemma insertAll_storedKV:
  assumes "storedKV pm kvss" and "\<forall>kv \<in> set kvs. length (fst kv) \<le> 400 \<and> length (snd kv) \<le> 400"
    and "length kvss + length kvs < 2 ^ 32"
  shows "\<exists>pm'. insertAll pm kvs
        = Some (case placeAll kvss kvs of Inl e \<Rightarrow> Some e | Inr kvss' \<Rightarrow> None, pm')
     \<and> (case placeAll kvss kvs of Inl e \<Rightarrow> True | Inr kvss' \<Rightarrow> storedKV pm' kvss')"
  using assms
proof (induction kvs arbitrary: pm kvss)
  case Nil
  then show ?case by simp
next
  case (Cons kv kvs)
  obtain k v where kv: "kv = (k, v)" by (cases kv)
  from Cons.prems have sz: "length k \<le> 400" "length v \<le> 400" and b: "Suc (length kvss) < 2 ^ 32"
    by (simp_all add: kv)
  from InsertRecord_storedKV [OF Cons.prems(1) sz b] obtain pm1 where
    ins: "InsertRecord pm k v = Some (case placeRecord kvss (k, v) of Inl e \<Rightarrow> Some e | Inr kvss' \<Rightarrow> None, pm1)"
    and st: "case placeRecord kvss (k, v) of Inl e \<Rightarrow> pm1 = pm | Inr kvss' \<Rightarrow> storedKV pm1 kvss'"
    by blast
  show ?case
  proof (cases "placeRecord kvss (k, v)")
    case (Inl e)
    with ins show ?thesis by (simp add: kv)
  next
    case (Inr kvss1)
    with st have s1: "storedKV pm1 kvss1" by simp
    from length_placeRecord [OF Inr] Cons.prems(3) have "length kvss1 + length kvs < 2 ^ 32"
      by simp
    from Cons.IH [OF s1 _ this] Cons.prems(2) obtain pm' where
      "insertAll pm1 kvs = Some (case placeAll kvss1 kvs of Inl e \<Rightarrow> Some e | Inr kvss' \<Rightarrow> None, pm')"
      "case placeAll kvss1 kvs of Inl e \<Rightarrow> True | Inr kvss' \<Rightarrow> storedKV pm' kvss'"
      by auto
    with ins Inr show ?thesis by (auto simp: kv)
  qed
qed

lemma findAfter_storedKV:
  assumes "storedKV pm kvss" and "\<forall>kv \<in> set kvs. length (fst kv) \<le> 400 \<and> length (snd kv) \<le> 400"
    and "length kvss + length kvs < 2 ^ 32"
  shows "findAfter pm kvs key
     = Some (case placeAll kvss kvs of Inl e \<Rightarrow> Inl e | Inr kvss' \<Rightarrow> findFirst kvss' key)"
proof -
  from insertAll_storedKV [OF assms] obtain pm' where
    a: "insertAll pm kvs = Some (case placeAll kvss kvs of Inl e \<Rightarrow> Some e | Inr kvss' \<Rightarrow> None, pm')"
    and b: "case placeAll kvss kvs of Inl e \<Rightarrow> True | Inr kvss' \<Rightarrow> storedKV pm' kvss'"
    by blast
  show ?thesis
  proof (cases "placeAll kvss kvs")
    case (Inl e)
    with a show ?thesis by (simp add: findAfter_def)
  next
    case (Inr kvss')
    with b have "storedKV pm' kvss'" by simp
    from FindRecord_storedKV [OF this] a Inr show ?thesis
      by (simp add: findAfter_def)
  qed
qed

lemma noFaults_emptyDisk: "noFaults emptyDisk"
  by (simp add: noFaults_def emptyDisk_def)

lemma storedKV_emptyDisk: "storedKV (NewPageManager emptyDisk) []"
  by (rule storedKV_new [OF noFaults_emptyDisk]) (simp add: emptyDisk_def)

lemma length_filler [simp]: "length filler = 400"
  by (simp add: filler_def)

lemma filler_neq_short [simp]: "length s < 400 \<Longrightarrow> filler \<noteq> s" "length s < 400 \<Longrightarrow> s \<noteq> filler"
  by auto

lemma Write_result:
  "snd (fst (Write d off data)) = (if off < 0 \<or> BadWrite (File d) off then Some WriteFailure else None)"
  "BadWrite (File (snd (Write d off data))) = BadWrite (File d)"
  by (simp_all add: Write_def WriteAt_def Let_def)

lemma writePageToDisk_result:
  "fst (writePageToDisk pm p) =
     (if pageOffset (PageId p) < 0 \<or> BadWrite (File (Disk pm)) (pageOffset (PageId p))
      then Some WriteFailure else None)"
  "BadWrite (File (Disk (snd (writePageToDisk pm p)))) = BadWrite (File (Disk pm))"
  using Write_result [of "Disk pm" "pageOffset (PageId p)" "pageBytes p"]
  by (simp_all add: writePageToDisk_def split_beta)

lemma SaveMetaDataPage_result:
  "fst (SaveMetaDataPage pm) = (if BadWrite (File (Disk pm)) 0 then Some WriteFailure else None)"
  "BadWrite (File (Disk (snd (SaveMetaDataPage pm)))) = BadWrite (File (Disk pm))"
  using Write_result [of "Disk pm" 0 "metaBytes (MetaData pm)"]
  by (simp_all add: SaveMetaDataPage_def split_beta)

lemma findPageWithSpace_short_file:
  assumes "length (Contents (File (Disk pm))) \<le> 4096" and last: "LastPageId (MetaData pm) = 1"
  shows "findPageWithSpace pm rs = Some (Inl NoSpaceAvailable)"
proof -
  have "pageOffset 1 = 4096" by (simp add: pageOffset_def)
  with assms have "snd (Read (Disk pm) (pageOffset 1) 4096) \<noteq> None"
    by (intro Read_eof) simp_all
  then have "\<exists>e. LoadPage pm 1 = Inl e"
    by (auto simp: LoadPage_def split: prod.splits option.splits)
  then obtain e where e: "LoadPage pm 1 = Inl e" ..
  have "\<not> (2::uint64) \<le> 1" by (simp add: word_le_nat_alt)
  then have "findPageWithSpace_from pm rs 2 = Some (Inl NoSpaceAvailable)"
    by (subst findPageWithSpace_from.simps) (simp add: last)
  then show ?thesis
    unfolding findPageWithSpace_def
    by (subst findPageWithSpace_from.simps) (simp add: last e)
qed

lemma storedKV_storeDup: "storedKV storeDup [[(''a'', ''hello''), (''a'', ''world'')]]"
proof -
  have "placeAll [] [(''a'', ''hello''), (''a'', ''world'')] = Inr [[(''a'', ''hello''), (''a'', ''world'')]]"
    by (simp add: freeOf_def used_def recordSize_def)
  with insertAll_storedKV [OF storedKV_emptyDisk, of "[(''a'', ''hello''), (''a'', ''world'')]"]
  obtain pm' where "insertAll (NewPageManager emptyDisk) [(''a'', ''hello''), (''a'', ''world'')] = Some (None, pm')"
    and "storedKV pm' [[(''a'', ''hello''), (''a'', ''world'')]]"
    by auto
  then show ?thesis by (simp add: storeDup_def)
qed

text \<open>A page written to a sound disk is the page that \<open>LoadPage\<close> reads back.\<close>

lemma read_back:
  assumes "off \<le> length b" "length s = n"
  shows "take n (drop off (store b off s)) = s"
  using assms by (simp add: store_def)

lemma write_then_load:
  assumes nf: "noFaults (Disk m)" and off: "0 \<le> pageOffset (PageId p)" and len: "length (Ptr p) = 4080"
  shows "\<exists>m'. writePageToDisk m p = (None, m') \<and> LoadPage m' (PageId p) = Inr p"
proof -
  let ?off = "pageOffset (PageId p)"
  let ?pad = "Contents (File (Disk m)) @ replicate (nat ?off - length (Contents (File (Disk m)))) 0"
  let ?c' = "store ?pad (nat ?off) (pageBytes p)"
  let ?d' = "(Disk m)\<lparr>File := (File (Disk m))\<lparr>Contents := ?c'\<rparr>\<rparr>"
  let ?m' = "m\<lparr>Disk := ?d'\<rparr>"
  have w: "Write (Disk m) ?off (pageBytes p) = ((1, None), ?d')"
    by (rule Write_ok [OF nf off])
  then have wp: "writePageToDisk m p = (None, ?m')"
    by (simp add: writePageToDisk_def)
  have lp: "nat ?off \<le> length ?pad" by simp
  have lb: "length (pageBytes p) = 4096" using len by (rule length_pageBytes)
  have lc: "length ?c' = max (length ?pad) (nat ?off + 4096)"
    using lb by (simp add: store_def, arith)
  have nf': "noFaults (Disk ?m')" using nf by simp
  have "Read (Disk ?m') ?off 4096 = (take 4096 (drop (nat ?off) (Contents (File (Disk ?m')))), None)"
    by (rule Read_ok [OF nf' off]) (simp add: lc)
  also have "take 4096 (drop (nat ?off) (Contents (File (Disk ?m')))) = pageBytes p"
    using read_back [OF lp lb] by simp
  finally have "LoadPage ?m' (PageId p) = Inr p"
    using len by (simp add: LoadPage_def parsePage_pageBytes)
  with wp show ?thesis by blast
qed


section \<open>Properties of WriteRecord and ReadRecord\<close>

text \<open>
  C3. Start from a freshly created page and apply any sequence of \<open>WriteRecord\<close> calls that
  all succeed. After one more successful call the page satisfies
  \<open>FreeSpace = DataStart - Count * 6\<close> in the integers, and \<open>FreeSpace\<close> is the old value
  minus the size of the record and of its slot entry, also in the integers: the 16-bit
  subtraction did not wrap around.
\<close>

theorem space_accounting:
  assumes "writeAll (fst (CreatePage pm)) kvs = (None, p)"
    and "WriteRecord p key val = (None, p')"
  shows "uint (FreeSpace p') = uint (DataStart p') - uint (Count p') * 6
     \<and> uint (FreeSpace p') = uint (FreeSpace p) - (int (recordSize (key, val)) + 6)"
proof -
  have "spaceOk p"
    using spaceOk_CreatePage assms(1) by (rule writeAll_spaceOk)
  note s = WriteRecord_space [OF this assms(2)]
  from s(1,2) have "unat (FreeSpace p') + unat (Count p') * 6 = unat (DataStart p')"
    by (simp add: spaceOk_def dataTop_def)
  then have "int (unat (FreeSpace p')) + int (unat (Count p')) * 6 = int (unat (DataStart p'))"
    by linarith
  moreover from s(3) have "int (unat (FreeSpace p')) + int (recordSize (key, val)) + 6 = int (unat (FreeSpace p))"
    by linarith
  ultimately show ?thesis
    by simp
qed

theorem space_accounting_witness:
  "writeAll (fst (CreatePage (NewPageManager emptyDisk))) [(''a'', ''hello'')] = (None, page1)
   \<and> WriteRecord page1 ''b'' ''world'' = (None, page2)
   \<and> uint (FreeSpace page2) = uint (DataStart page2) - uint (Count page2) * 6
   \<and> uint (FreeSpace page2) = uint (FreeSpace page1) - (int (recordSize (''b'', ''world'')) + 6)"
proof -
  have a: "writeAll (fst (CreatePage (NewPageManager emptyDisk))) [(''a'', ''hello'')] = (None, page1)"
    using writeAll_page1 by (simp add: page0_def)
  from space_accounting [OF a write_page2] a write_page2 show ?thesis
    by simp
qed

text \<open>
  C6. A key of more than 400 bytes makes \<open>WriteRecord\<close> return \<open>KeyTooLarge\<close>, and a value of
  more than 400 bytes (with a key within the limit, which is checked first) makes it return
  \<open>ValueTooLarge\<close>; in both cases the page after the call is the page before it, with
  \<open>Count\<close>, \<open>FreeSpace\<close>, \<open>DataStart\<close> and the buffer unchanged.
\<close>

theorem oversize_rejected:
  "(400 < length key \<longrightarrow> WriteRecord p key val = (Some KeyTooLarge, p)) \<and>
   (length key \<le> 400 \<and> 400 < length val \<longrightarrow> WriteRecord p key val = (Some ValueTooLarge, p))"
  by (simp add: WriteRecord_def)

theorem oversize_rejected_witness:
  "400 < length (replicate 401 CHR ''k'')
   \<and> WriteRecord page1 (replicate 401 CHR ''k'') ''v'' = (Some KeyTooLarge, page1)
   \<and> length ''k'' \<le> 400 \<and> 400 < length (replicate 401 CHR ''v'')
   \<and> WriteRecord page1 ''k'' (replicate 401 CHR ''v'') = (Some ValueTooLarge, page1)"
  using oversize_rejected [of "replicate 401 CHR ''k''" page1 "''v''"]
    oversize_rejected [of "''k''" page1 "replicate 401 CHR ''v''"]
  by simp

text \<open>
  C9, as amended. Take a page with a 4080-byte buffer whose accounting holds with the top of
  the record region read the way \<open>WriteRecord\<close> reads it (\<open>dataTop\<close>: the end of the buffer
  when the page has no record, \<open>DataStart\<close> otherwise), and a successful \<open>WriteRecord\<close> on
  it. The call changes no byte outside the 6-byte window of the new slot and the range from
  the new \<open>DataStart\<close> up to the old top; these two ranges lie in the free space, so every
  slot entry with an index below the old \<open>Count\<close> reads as before and every byte from the old
  top upward is unchanged.
\<close>

theorem write_frame:
  assumes len: "length (Ptr p) = 4080"
    and inv: "unat (FreeSpace p) + unat (Count p) * 6 = unat (dataTop p)"
    and w: "WriteRecord p key val = (None, p')"
  shows "length (Ptr p') = length (Ptr p)
     \<and> unat (Count p) * 6 + 6 \<le> unat (DataStart p')
     \<and> unat (DataStart p') + recordSize (key, val) = unat (dataTop p)
     \<and> unat (dataTop p) \<le> 4080
     \<and> (\<forall>j < 4080.
           \<not> (unat (Count p) * 6 \<le> j \<and> j < unat (Count p) * 6 + 6) \<and>
           \<not> (unat (DataStart p') \<le> j \<and> j < unat (dataTop p))
           \<longrightarrow> Ptr p' ! j = Ptr p ! j)
     \<and> (\<forall>i < unat (Count p). GetSlot p' i = GetSlot p i)"
proof -
  let ?kv = "(key, val)"
  let ?rs = "recordSize ?kv"
  let ?nds = "unat (nextStart p ?kv)"
  let ?n = "unat (Count p)"
  from w have "fst (WriteRecord p key val) = None" by simp
  from WriteRecord_None [OF this]
  have c: "length key \<le> 400" "length val \<le> 400" "?rs + 6 \<le> unat (FreeSpace p)"
    and fit: "?nds + ?rs \<le> length (Ptr p)" "?n * 6 + 6 \<le> length (Ptr p)"
    by simp_all
  from inv c have le: "?rs \<le> unat (dataTop p)" by linarith
  then have nds: "?nds = unat (dataTop p) - ?rs"
    unfolding nextStart_def by (rule unat_sub_of_nat)
  from nds le fit len have top: "unat (dataTop p) \<le> 4080" by linarith
  with len inv have ok: "spaceOk p" by (simp add: spaceOk_def)
  note cf = WriteRecord_spaceOk [OF ok c]
  note sp = WriteRecord_space [OF ok w]
  let ?b1 = "store (Ptr p) ?nds (recordBytes ?kv)"
  let ?b2 = "store ?b1 (?n * 6) (slotBytes (newSlot p ?kv))"
  from w cf(1) have ptr: "Ptr p' = ?b2" and ds: "DataStart p' = nextStart p ?kv" by auto
  have len1: "length ?b1 = 4080" using len fit by simp
  have len2: "length ?b2 = 4080" using len1 fit len by simp
  from inv c nds have below: "?n * 6 + 6 \<le> ?nds" by linarith
  have frame: "Ptr p' ! j = Ptr p ! j"
    if "j < 4080" "\<not> (?n * 6 \<le> j \<and> j < ?n * 6 + 6)" "\<not> (?nds \<le> j \<and> j < unat (dataTop p))" for j
  proof -
    have "?b2 ! j = ?b1 ! j"
      by (rule nth_store_other) (use that len1 fit len in auto)
    also have "\<dots> = Ptr p ! j"
      by (rule nth_store_other) (use that len fit nds le in auto)
    finally show ?thesis by (simp add: ptr)
  qed
  have slots: "GetSlot p' i = GetSlot p i" if "i < ?n" for i
  proof (rule GetSlot_same_bytes)
    show "length (Ptr p') = length (Ptr p)" using len2 len by (simp add: ptr)
    show "i * 6 + 6 \<le> length (Ptr p)" using that fit by simp
    have "cutBytes ?b2 (i * 6) (i * 6 + 6) = cutBytes ?b1 (i * 6) (i * 6 + 6)"
      by (rule cut_store_other) (use that len1 fit len in simp_all)
    also have "\<dots> = cutBytes (Ptr p) (i * 6) (i * 6 + 6)"
      by (rule cut_store_other) (use that len fit below in simp_all)
    finally show "cutBytes (Ptr p') (i * 6) (i * 6 + 6) = cutBytes (Ptr p) (i * 6) (i * 6 + 6)"
      by (simp add: ptr)
  qed
  from len2 len below nds le top frame slots show ?thesis
    by (simp add: ptr ds)
qed

theorem write_frame_witness:
  "length (Ptr page1) = 4080
   \<and> unat (FreeSpace page1) + unat (Count page1) * 6 = unat (dataTop page1)
   \<and> WriteRecord page1 ''b'' ''world'' = (None, page2)
   \<and> length (Ptr page2) = length (Ptr page1)
   \<and> Ptr page2 ! 4075 = Ptr page1 ! 4075
   \<and> GetSlot page2 0 = GetSlot page1 0"
proof -
  have a: "length (Ptr page1) = 4080" by (rule page1_fields)
  have b: "unat (FreeSpace page1) + unat (Count page1) * 6 = unat (dataTop page1)"
    by (simp add: page1_fields)
  note f = write_frame [OF a b write_page2]
  from f have "\<forall>j<4080. \<not> (unat (Count page1) * 6 \<le> j \<and> j < unat (Count page1) * 6 + 6) \<and>
           \<not> (unat (DataStart page2) \<le> j \<and> j < unat (dataTop page1))
           \<longrightarrow> Ptr page2 ! j = Ptr page1 ! j"
    by simp
  then have c: "Ptr page2 ! 4075 = Ptr page1 ! 4075"
    by (simp add: page1_fields page2_fields)
  from f have "\<forall>i < unat (Count page1). GetSlot page2 i = GetSlot page1 i"
    by simp
  then have d: "GetSlot page2 0 = GetSlot page1 0"
    by (simp add: page1_fields)
  from f a b c d write_page2 show ?thesis by simp
qed

text \<open>
  C9 as stated fails on a page without records whose \<open>DataStart\<close> is not the end of the
  buffer: the equation \<open>FreeSpace = DataStart - Count * 6\<close> holds, the call succeeds, and it
  writes the record at the end of the buffer, above the old \<open>DataStart\<close>.
\<close>

theorem frame_counterexample:
  "uint (FreeSpace stalePage) = uint (DataStart stalePage) - uint (Count stalePage) * 6
   \<and> length (Ptr stalePage) = 4080
   \<and> fst (WriteRecord stalePage ''a'' ''b'') = None
   \<and> unat (DataStart stalePage) \<le> 4078
   \<and> Ptr stalePage ! 4078 = 0
   \<and> Ptr (snd (WriteRecord stalePage ''a'' ''b'')) ! 4078 = 97"
  by (simp add: write_stale nth_store recordBytes_def le16_def bytesOf_def toByte_def)
    (simp add: stalePage_def)

text \<open>
  C4, as amended. On a page built from a freshly created page by successful \<open>WriteRecord\<close>
  calls, none of them with the key \<open>key\<close>: for a key and a value of 1 to 400 bytes, a
  successful \<open>WriteRecord p key val\<close> followed by \<open>ReadRecord\<close> of the same key on the same
  page returns \<open>val\<close> with \<open>found = true\<close>.
\<close>

theorem write_then_read:
  assumes "writeAll (fst (CreatePage pm)) kvs = (None, p)"
    and "key \<notin> fst ` set kvs"
    and "1 \<le> length key" "length key \<le> 400" "1 \<le> length val" "length val \<le> 400"
    and "WriteRecord p key val = (None, p')"
  shows "ReadRecord p' key = Inr (val, True)"
proof -
  from writeAll_holds [OF holds_CreatePage assms(1)] have "holds p kvs" by simp
  from holds_WriteRecord [OF this assms(7)] have "holds p' (kvs @ [(key, val)])" .
  from ReadRecord_holds [OF this] assms(2) show ?thesis
    by (simp add: firstMatch_absent)
qed

theorem write_then_read_witness:
  "writeAll (fst (CreatePage (NewPageManager emptyDisk))) [(''a'', ''hello'')] = (None, page1)
   \<and> ''b'' \<notin> fst ` set [(''a'', ''hello'')]
   \<and> 1 \<le> length ''b'' \<and> length ''b'' \<le> 400 \<and> 1 \<le> length ''world'' \<and> length ''world'' \<le> 400
   \<and> WriteRecord page1 ''b'' ''world'' = (None, page2)
   \<and> ReadRecord page2 ''b'' = Inr (''world'', True)"
proof -
  have a: "writeAll (fst (CreatePage (NewPageManager emptyDisk))) [(''a'', ''hello'')] = (None, page1)"
    using writeAll_page1 by (simp add: page0_def)
  have "ReadRecord page2 ''b'' = Inr (''world'', True)"
    by (rule write_then_read [OF a _ _ _ _ _ write_page2]) simp_all
  with a write_page2 show ?thesis by simp
qed

text \<open>
  C4 as stated fails on a page that already holds the key: the page \<open>page1\<close> holds
  \<open>("a", "hello")\<close>; writing \<open>("a", "world")\<close> succeeds, and reading \<open>"a"\<close> returns \<open>"hello"\<close>.
\<close>

theorem write_then_read_counterexample:
  "1 \<le> length ''a'' \<and> length ''a'' \<le> 400 \<and> 1 \<le> length ''world'' \<and> length ''world'' \<le> 400
   \<and> fst (WriteRecord page1 ''a'' ''world'') = None
   \<and> ReadRecord (snd (WriteRecord page1 ''a'' ''world'')) ''a'' = Inr (''hello'', True)
   \<and> ''hello'' \<noteq> ''world''"
proof -
  from holds_WriteRecord [OF holds_page1 write_dup]
  have "holds (snd (WriteRecord page1 ''a'' ''world'')) [(''a'', ''hello''), (''a'', ''world'')]"
    by simp
  moreover have "fst (WriteRecord page1 ''a'' ''world'') = None"
    using write_dup by (metis fst_conv)
  ultimately show ?thesis
    using ReadRecord_holds [of "snd (WriteRecord page1 ''a'' ''world'')" _ "''a''"] by simp
qed

text \<open>
  C8. On a freshly created page, \<open>WriteRecord("a", "hello")\<close> and then
  \<open>WriteRecord("b", "world")\<close> both succeed; afterwards \<open>Count = 2\<close>, slot 1 has a smaller
  offset than slot 0, the record of slot 0 ends at the end of the buffer and the record of
  slot 1 ends where the record of slot 0 starts, \<open>ReadRecord("a")\<close> returns
  \<open>("hello", true)\<close> and \<open>ReadRecord("c")\<close> returns \<open>found = false\<close>.
\<close>

theorem two_records_scenario:
  "\<exists>p1 p2 s0 s1.
     WriteRecord (fst (CreatePage pm)) ''a'' ''hello'' = (None, p1)
     \<and> WriteRecord p1 ''b'' ''world'' = (None, p2)
     \<and> Count p2 = 2
     \<and> GetSlot p2 0 = Inr s0 \<and> GetSlot p2 1 = Inr s1
     \<and> offset s1 < offset s0
     \<and> unat (offset s0) + unat (len s0) = 4080
     \<and> unat (offset s1) + unat (len s1) = unat (offset s0)
     \<and> ReadRecord p2 ''a'' = Inr (''hello'', True)
     \<and> ReadRecord p2 ''c'' = Inr ('''', False)"
proof -
  let ?p0 = "fst (CreatePage pm)"
  let ?kvs = "[(''a'', ''hello''), (''b'', ''world'')]"
  let ?p1 = "snd (WriteRecord ?p0 ''a'' ''hello'')"
  let ?p2 = "snd (WriteRecord ?p1 ''b'' ''world'')"
  have f0: "unat (FreeSpace ?p0) = 4080" by (simp add: CreatePage_page)
  have w1: "WriteRecord ?p0 ''a'' ''hello'' = (None, ?p1)"
    by (rule WriteRecord_success [OF spaceOk_CreatePage]) (simp_all add: recordSize_def f0)
  note sp1 = WriteRecord_space [OF spaceOk_CreatePage w1]
  from sp1(3) have f1: "unat (FreeSpace ?p1) = 4064" by (simp add: recordSize_def f0)
  have w2: "WriteRecord ?p1 ''b'' ''world'' = (None, ?p2)"
    by (rule WriteRecord_success [OF sp1(1)]) (simp_all add: recordSize_def f1)
  note sp2 = WriteRecord_space [OF sp1(1) w2]
  from holds_WriteRecord [OF holds_WriteRecord [OF holds_CreatePage w1] w2]
  have h: "holds ?p2 ?kvs" by simp
  from sp1(5) sp2(5) have "unat (Count ?p2) = 2" by (simp add: CreatePage_page)
  then have "of_nat (unat (Count ?p2)) = (of_nat 2 :: uint32)"
    by (simp only:)
  then have c: "Count ?p2 = 2"
    by simp
  have g0: "GetSlot ?p2 0 = Inr \<lparr>offset = 4070, len = 10, flag = 0\<rparr>"
    using GetSlot_holds [OF h, of 0] by (simp add: recAt_def recordSize_def)
  have g1: "GetSlot ?p2 1 = Inr \<lparr>offset = 4060, len = 10, flag = 0\<rparr>"
    using GetSlot_holds [OF h, of 1] by (simp add: recAt_def recordSize_def)
  have r1: "ReadRecord ?p2 ''a'' = Inr (''hello'', True)"
    using ReadRecord_holds [OF h, of "''a''"] by simp
  have r2: "ReadRecord ?p2 ''c'' = Inr ('''', False)"
    using ReadRecord_holds [OF h, of "''c''"] by simp
  from w1 w2 c g0 g1 r1 r2 show ?thesis
    by (intro exI [of _ ?p1] exI [of _ ?p2] exI [of _ "\<lparr>offset = 4070, len = 10, flag = 0\<rparr>"]
        exI [of _ "\<lparr>offset = 4060, len = 10, flag = 0\<rparr>"]) simp
qed

text \<open>
  C10, as amended. \<open>WriteRecord\<close> has no lower bound on the lengths. On a page built from a
  freshly created page by successful \<open>WriteRecord\<close> calls, none of them with the key \<open>key\<close>,
  and with room for the record and its slot: for every key and value of at most 400 bytes,
  the empty ones included, \<open>WriteRecord\<close> succeeds, the four bytes at the new \<open>DataStart\<close>
  are the two lengths (so 0 for an empty key or value), and \<open>ReadRecord\<close> of the key
  returns the value with \<open>found = true\<close>.
\<close>

theorem zero_length_accepted:
  assumes "writeAll (fst (CreatePage pm)) kvs = (None, p)"
    and "length key \<le> 400" "length val \<le> 400"
    and "recordSize (key, val) + 6 \<le> unat (FreeSpace p)"
    and "key \<notin> fst ` set kvs"
  shows "\<exists>p'. WriteRecord p key val = (None, p')
     \<and> sliceBytes (Ptr p') (unat (DataStart p')) (unat (DataStart p') + 4)
         = Inr (le16 (of_nat (length key)) @ le16 (of_nat (length val)))
     \<and> ReadRecord p' key = Inr (val, True)"
proof -
  let ?p' = "snd (WriteRecord p key val)"
  let ?kv = "(key, val)"
  from writeAll_holds [OF holds_CreatePage assms(1)] have h: "holds p kvs" by simp
  then have ok: "spaceOk p" by (simp add: holds_def)
  from WriteRecord_success [OF ok assms(2-4)] have w: "WriteRecord p key val = (None, ?p')" .
  from holds_WriteRecord [OF h w] have h': "holds ?p' (kvs @ [?kv])" .
  note sp = WriteRecord_space [OF ok w]
  from h have top: "unat (dataTop p) = 4080 - used kvs" and u: "used kvs \<le> 4080"
    by (simp_all add: holds_def)
  from h' have u': "used (kvs @ [?kv]) \<le> 4080" by (simp add: holds_def)
  from sp(4) top u' have ds: "unat (DataStart ?p') = recAt (kvs @ [?kv]) (length kvs)"
    by (simp add: recAt_append_new)
  from h' have rc: "cutBytes (Ptr ?p') (recAt (kvs @ [?kv]) (length kvs))
      (recAt (kvs @ [?kv]) (length kvs) + recordSize ?kv) = recordBytes ?kv"
    unfolding holds_def by (metis length_append_singleton lessI nth_append_length)
  note cb = holds_count_bound [OF h']
  have rb: "recAt (kvs @ [?kv]) (length kvs) + recordSize ?kv \<le> 4080"
    using recAt_bounds(2) [of "length kvs" "kvs @ [?kv]"] u' by simp
  have "sliceBytes (Ptr ?p') (unat (DataStart ?p')) (unat (DataStart ?p') + 4)
         = Inr (le16 (of_nat (length key)) @ le16 (of_nat (length val)))"
    unfolding ds
    by (rule sliceI, rule cut_sub_eq [OF rc])
      (use rb cb in \<open>simp_all add: recordBytes_def recordSize_def cutBytes_def\<close>)
  moreover from ReadRecord_holds [OF h'] assms(5) have "ReadRecord ?p' key = Inr (val, True)"
    by (simp add: firstMatch_absent)
  ultimately show ?thesis
    using w by blast
qed

theorem zero_length_accepted_witness:
  "writeAll (fst (CreatePage (NewPageManager emptyDisk))) [(''a'', ''hello'')] = (None, page1)
   \<and> length '''' \<le> 400 \<and> recordSize ('''', '''') + 6 \<le> unat (FreeSpace page1)
   \<and> '''' \<notin> fst ` set [(''a'', ''hello'')]
   \<and> (\<exists>p'. WriteRecord page1 '''' '''' = (None, p')
     \<and> sliceBytes (Ptr p') (unat (DataStart p')) (unat (DataStart p') + 4) = Inr (le16 0 @ le16 0)
     \<and> ReadRecord p' '''' = Inr ('''', True))"
proof -
  have a: "writeAll (fst (CreatePage (NewPageManager emptyDisk))) [(''a'', ''hello'')] = (None, page1)"
    using writeAll_page1 by (simp add: page0_def)
  have b: "recordSize ('''', '''') + 6 \<le> unat (FreeSpace page1)"
    by (simp add: recordSize_def FreeSpace_page1)
  from zero_length_accepted [OF a _ _ b] a b show ?thesis
    by simp
qed

text \<open>
  C10 as stated fails in two ways. With an empty value and the key \<open>"k"\<close>, written with success
  on the fresh page, \<open>ReadRecord\<close> of the empty key finds nothing: the record is found under
  its own key. And when the page already holds a record with the empty key, the value read
  back is the older one: after \<open>("", "x")\<close> and then \<open>("", "y")\<close>, both written with success,
  reading the empty key returns \<open>"x"\<close>.
\<close>

theorem zero_length_counterexample:
  "fst (WriteRecord page0 ''k'' '''') = None
   \<and> ReadRecord (snd (WriteRecord page0 ''k'' '''')) '''' = Inr ('''', False)
   \<and> fst (WriteRecord page0 '''' ''x'') = None
   \<and> fst (WriteRecord (snd (WriteRecord page0 '''' ''x'')) '''' ''y'') = None
   \<and> ReadRecord (snd (WriteRecord (snd (WriteRecord page0 '''' ''x'')) '''' ''y'')) '''' = Inr (''x'', True)
   \<and> ''x'' \<noteq> ''y''"
proof -
  have w: "WriteRecord page0 ''k'' '''' = (None, snd (WriteRecord page0 ''k'' ''''))"
    by (rule WriteRecord_success [OF spaceOk_page0]) (simp_all add: recordSize_def FreeSpace_page0)
  from holds_WriteRecord [OF holds_page0 w]
  have "holds (snd (WriteRecord page0 ''k'' '''')) [(''k'', '''')]"
    by simp
  from ReadRecord_holds [OF this, of "''''"]
  have "ReadRecord (snd (WriteRecord page0 ''k'' '''')) '''' = Inr ('''', False)"
    by simp
  moreover have "fst (WriteRecord page0 ''k'' '''') = None"
    using w by (metis fst_conv)
  moreover
  from holds_WriteRecord [OF holds_WriteRecord [OF holds_page0 write_empty_dup(1)] write_empty_dup(2)]
  have "holds (snd (WriteRecord (snd (WriteRecord page0 '''' ''x'')) '''' ''y'')) [('''', ''x''), ('''', ''y'')]"
    by simp
  from ReadRecord_holds [OF this, of "''''"]
  have "ReadRecord (snd (WriteRecord (snd (WriteRecord page0 '''' ''x'')) '''' ''y'')) '''' = Inr (''x'', True)"
    by simp
  moreover have "fst (WriteRecord page0 '''' ''x'') = None"
    using write_empty_dup(1) by (metis fst_conv)
  moreover have "fst (WriteRecord (snd (WriteRecord page0 '''' ''x'')) '''' ''y'') = None"
    using write_empty_dup(2) by (metis fst_conv)
  ultimately show ?thesis by simp
qed

text \<open>
  C5. For every page built from a freshly created page by successful \<open>WriteRecord\<close> calls,
  the image that \<open>writePageToDisk\<close> builds has 4096 bytes: a 16-byte header holding
  \<open>PageId\<close>, \<open>Count\<close>, \<open>FreeSpace\<close> and \<open>DataStart\<close> in little-endian order,
  followed by the buffer. Parsing the image the way \<open>LoadPage\<close> does gives back the same
  page, and on a disk without faults \<open>writePageToDisk\<close> followed by \<open>LoadPage\<close> of the
  same page id returns the page that was written.
\<close>

theorem page_roundtrip:
  assumes "writeAll (fst (CreatePage pm)) kvs = (None, p)"
  shows "length (pageBytes p) = 4096
     \<and> take 16 (pageBytes p) = le64 (PageId p) @ le32 (Count p) @ le16 (FreeSpace p) @ le16 (DataStart p)
     \<and> drop 16 (pageBytes p) = Ptr p
     \<and> parsePage (pageBytes p) = p
     \<and> (noFaults (Disk m) \<and> 0 \<le> pageOffset (PageId p)
        \<longrightarrow> (\<exists>m'. writePageToDisk m p = (None, m') \<and> LoadPage m' (PageId p) = Inr p))"
proof -
  from writeAll_holds [OF holds_CreatePage assms] have "holds p kvs" by simp
  then have len: "length (Ptr p) = 4080" by (rule holds_count_bound)
  then have "length (pageBytes p) = 4096"
    "take 16 (pageBytes p) = le64 (PageId p) @ le32 (Count p) @ le16 (FreeSpace p) @ le16 (DataStart p)"
    "drop 16 (pageBytes p) = Ptr p"
    by (simp_all add: pageBytes_eq)
  moreover from len have "parsePage (pageBytes p) = p" by (rule parsePage_pageBytes)
  ultimately show ?thesis
    using write_then_load [OF _ _ len, of m] by simp
qed

theorem page_roundtrip_witness:
  "writeAll (fst (CreatePage (NewPageManager emptyDisk))) [(''a'', ''hello''), (''b'', ''world'')] = (None, page2)
   \<and> length (pageBytes page2) = 4096 \<and> drop 16 (pageBytes page2) = Ptr page2
   \<and> parsePage (pageBytes page2) = page2
   \<and> noFaults (Disk (NewPageManager emptyDisk)) \<and> 0 \<le> pageOffset (PageId page2)
   \<and> (\<exists>m'. writePageToDisk (NewPageManager emptyDisk) page2 = (None, m') \<and> LoadPage m' (PageId page2) = Inr page2)"
proof -
  have a: "writeAll (fst (CreatePage (NewPageManager emptyDisk))) [(''a'', ''hello''), (''b'', ''world'')] = (None, page2)"
    using writeAll_page2 by (simp add: page0_def)
  have b: "noFaults (Disk (NewPageManager emptyDisk))"
    by (simp add: NewPageManager_def noFaults_emptyDisk)
  have "PageId page2 = 1"
    using WriteRecord_space(6) [OF spaceOk_page1 write_page2] WriteRecord_space(6) [OF spaceOk_page0 write_page1]
    by (simp add: page0_def CreatePage_manager NewPageManager_def)
  then have c: "0 \<le> pageOffset (PageId page2)"
    by (simp add: pageOffset_def)
  from page_roundtrip [OF a, of "NewPageManager emptyDisk"] a b c show ?thesis by simp
qed

section \<open>Properties of the page manager\<close>

text \<open>
  C1. The claim does not hold of the code: \<open>InsertRecord\<close> drops the error of
  \<open>SaveMetaDataPage\<close>. On a new manager over \<open>badMetaDisk\<close>, whose device refuses the write of
  the metadata page, the first \<open>InsertRecord\<close> creates page 1, the call of \<open>SaveMetaDataPage\<close>
  it makes returns \<open>WriteFailure\<close>, and \<open>InsertRecord\<close> returns \<open>nil\<close>.
\<close>

theorem metadata_failure_dropped:
  "fst (SaveMetaDataPage (snd (writePageToDisk (snd (CreatePage (NewPageManager badMetaDisk)))
          (fst (CreatePage (NewPageManager badMetaDisk)))))) = Some WriteFailure
   \<and> map_option fst (InsertRecord (NewPageManager badMetaDisk) ''a'' ''b'') = Some None"
proof -
  let ?pm = "NewPageManager badMetaDisk"
  let ?p0 = "fst (CreatePage ?pm)"
  let ?pm1 = "snd (CreatePage ?pm)"
  let ?pm2 = "snd (writePageToDisk ?pm1 ?p0)"
  let ?pm3 = "snd (SaveMetaDataPage ?pm2)"
  let ?p' = "snd (WriteRecord ?p0 ''a'' ''b'')"
  have bw: "BadWrite (File (Disk ?pm1)) = (\<lambda>off. off = 0)"
    by (simp add: CreatePage_manager NewPageManager_def badMetaDisk_def)
  have id0: "PageId ?p0 = 1"
    by (simp add: CreatePage_manager NewPageManager_def)
  have po: "pageOffset 1 = 4096" by (simp add: pageOffset_def)
  have w1: "fst (writePageToDisk ?pm1 ?p0) = None"
    by (simp add: writePageToDisk_result bw id0 po)
  have bw2: "BadWrite (File (Disk ?pm2)) = (\<lambda>off. off = 0)"
    by (simp add: writePageToDisk_result bw)
  have sm: "fst (SaveMetaDataPage ?pm2) = Some WriteFailure"
    by (simp add: SaveMetaDataPage_result bw2)
  have bw3: "BadWrite (File (Disk ?pm3)) = (\<lambda>off. off = 0)"
    by (simp add: SaveMetaDataPage_result bw2)
  have f0: "unat (FreeSpace ?p0) = 4080" by (simp add: CreatePage_page)
  have wr: "WriteRecord ?p0 ''a'' ''b'' = (None, ?p')"
    by (rule WriteRecord_success [OF spaceOk_CreatePage]) (simp_all add: recordSize_def f0)
  then have wf: "fst (WriteRecord ?p0 ''a'' ''b'') = None" by (metis fst_conv)
  from WriteRecord_space(6) [OF spaceOk_CreatePage wr] id0 have id': "PageId ?p' = 1" by simp
  have w2: "fst (writePageToDisk ?pm3 ?p') = None"
    by (simp add: writePageToDisk_result bw3 id' po)
  have fp: "findPageWithSpace ?pm 6 = Some (Inl NoSpaceAvailable)"
    by (rule findPageWithSpace_short_file) (simp_all add: NewPageManager_def badMetaDisk_def)
  have "map_option fst (InsertRecord ?pm ''a'' ''b'') = Some None"
    unfolding InsertRecord_def Let_def
    using fp w1 wf w2 by (simp add: split_beta)
  with sm show ?thesis by simp
qed

text \<open>
  C2. The claim does not hold of the code: \<open>findPageWithSpace\<close> asks \<open>HasSpace\<close> for the
  bytes of the record only, \<open>WriteRecord\<close> needs six more for the slot entry, and
  \<open>InsertRecord\<close> returns the error of \<open>WriteRecord\<close> as it is. On a new store, five
  records with 400-byte keys and values leave 30 free bytes in page 1; a sixth record of
  30 bytes (a 1-byte key, a 25-byte value) is directed to page 1 and the caller gets
  \<open>InsufficientSpace\<close>, although a new page could have been created.
\<close>

theorem insufficient_space_surfaces:
  "length ''k'' \<le> 400 \<and> length (replicate 25 CHR ''v'') \<le> 400
   \<and> map_option fst (insertAll (NewPageManager emptyDisk)
        [(filler, filler), (filler, filler), (filler, filler), (filler, filler), (filler, filler),
         (''k'', replicate 25 CHR ''v'')]) = Some (Some InsufficientSpace)"
  using insertAll_storedKV [OF storedKV_emptyDisk,
      of "[(filler, filler), (filler, filler), (filler, filler), (filler, filler), (filler, filler),
           (''k'', replicate 25 CHR ''v'')]"]
  by (auto simp add: freeOf_def used_def recordSize_def)

text \<open>
  C7, as amended. \<open>WriteRecord\<close> does not overwrite: after two successful calls with the same
  key on a page built from a freshly created page, \<open>Count\<close> has grown by two, the two new
  slots hold the two values, and \<open>ReadRecord\<close> returns the first record of the page with that
  key in slot order, which is the first of the two when the page held no record with that
  key before. \<open>FindRecord\<close> returns the match of the first page, in the order of page ids,
  that holds the key; on a new store both records go to page 1, so after two insertions
  of one key \<open>FindRecord\<close> returns the value inserted first.
\<close>

theorem duplicate_key_lookup:
  "(writeAll (fst (CreatePage pm0)) kvs = (None, p) \<and> WriteRecord p key v1 = (None, p1)
      \<and> WriteRecord p1 key v2 = (None, p2)
    \<longrightarrow> unat (Count p2) = unat (Count p) + 2
      \<and> readSlot p2 (bytesOf key) (unat (Count p)) = Inr (Some v1)
      \<and> readSlot p2 (bytesOf key) (unat (Count p) + 1) = Inr (Some v2)
      \<and> ReadRecord p2 key = Inr (firstMatch (kvs @ [(key, v1), (key, v2)]) key)
      \<and> (key \<notin> fst ` set kvs \<longrightarrow> ReadRecord p2 key = Inr (v1, True)))
   \<and> (storedKV pm kvss \<longrightarrow> FindRecord pm key = Some (findFirst kvss key))
   \<and> (noFaults d \<and> Contents (File d) = [] \<and> length key \<le> 400 \<and> length v1 \<le> 400 \<and> length v2 \<le> 400
    \<longrightarrow> findAfter (NewPageManager d) [(key, v1), (key, v2)] key = Some (Inr v1))"
proof (intro conjI impI)
  assume a: "writeAll (fst (CreatePage pm0)) kvs = (None, p) \<and> WriteRecord p key v1 = (None, p1)
      \<and> WriteRecord p1 key v2 = (None, p2)"
  let ?all = "kvs @ [(key, v1), (key, v2)]"
  from a writeAll_holds [OF holds_CreatePage, of pm0 kvs p] have h: "holds p kvs" by simp
  from a holds_WriteRecord [OF h, of key v1 p1] have h1: "holds p1 (kvs @ [(key, v1)])" by simp
  from a holds_WriteRecord [OF h1, of key v2 p2] have h2: "holds p2 ?all" by simp
  from h have n: "unat (Count p) = length kvs" by (simp add: holds_def)
  from h2 show "unat (Count p2) = unat (Count p) + 2" by (simp add: holds_def n)
  from readSlot_holds [OF h2, of "length kvs" key]
  show "readSlot p2 (bytesOf key) (unat (Count p)) = Inr (Some v1)" by (simp add: n)
  from readSlot_holds [OF h2, of "Suc (length kvs)" key]
  show "readSlot p2 (bytesOf key) (unat (Count p) + 1) = Inr (Some v2)" by (simp add: n nth_append)
  from ReadRecord_holds [OF h2] show r: "ReadRecord p2 key = Inr (firstMatch ?all key)" .
  assume "key \<notin> fst ` set kvs"
  with r show "ReadRecord p2 key = Inr (v1, True)" by (simp add: firstMatch_absent)
next
  assume "storedKV pm kvss"
  then show "FindRecord pm key = Some (findFirst kvss key)" by (rule FindRecord_storedKV)
next
  assume a: "noFaults d \<and> Contents (File d) = [] \<and> length key \<le> 400 \<and> length v1 \<le> 400 \<and> length v2 \<le> 400"
  then have "storedKV (NewPageManager d) []" by (intro storedKV_new) simp_all
  moreover from a have "recordSize (key, v2) + 6 \<le> freeOf [(key, v1)]"
    by (auto simp add: freeOf_def used_def recordSize_def)
  then have "placeAll [] [(key, v1), (key, v2)] = Inr [[(key, v1), (key, v2)]]"
    by simp
  ultimately show "findAfter (NewPageManager d) [(key, v1), (key, v2)] key = Some (Inr v1)"
    using findAfter_storedKV [of "NewPageManager d" "[]" "[(key, v1), (key, v2)]" key] a
    by simp
qed

theorem duplicate_key_lookup_witness:
  "writeAll (fst (CreatePage (NewPageManager emptyDisk))) [] = (None, page0)
   \<and> WriteRecord page0 ''a'' ''hello'' = (None, page1)
   \<and> WriteRecord page1 ''a'' ''world'' = (None, snd (WriteRecord page1 ''a'' ''world''))
   \<and> unat (Count (snd (WriteRecord page1 ''a'' ''world''))) = unat (Count page0) + 2
   \<and> readSlot (snd (WriteRecord page1 ''a'' ''world'')) (bytesOf ''a'') (unat (Count page0)) = Inr (Some ''hello'')
   \<and> readSlot (snd (WriteRecord page1 ''a'' ''world'')) (bytesOf ''a'') (unat (Count page0) + 1) = Inr (Some ''world'')
   \<and> ''a'' \<notin> fst ` set []
   \<and> ReadRecord (snd (WriteRecord page1 ''a'' ''world'')) ''a'' = Inr (''hello'', True)
   \<and> storedKV storeDup [[(''a'', ''hello''), (''a'', ''world'')]]
   \<and> FindRecord storeDup ''a'' = Some (Inr ''hello'')
   \<and> noFaults emptyDisk \<and> Contents (File emptyDisk) = []
   \<and> length ''a'' \<le> 400 \<and> length ''hello'' \<le> 400 \<and> length ''world'' \<le> 400
   \<and> findAfter (NewPageManager emptyDisk) [(''a'', ''hello''), (''a'', ''world'')] ''a'' = Some (Inr ''hello'')"
proof -
  have a: "writeAll (fst (CreatePage (NewPageManager emptyDisk))) [] = (None, page0)"
    by (simp add: page0_def)
  have e: "Contents (File emptyDisk) = []" by (simp add: emptyDisk_def)
  note t = duplicate_key_lookup [of "NewPageManager emptyDisk" "[]" page0 "''a''" "''hello''" page1
      "''world''" "snd (WriteRecord page1 ''a'' ''world'')" storeDup
      "[[(''a'', ''hello''), (''a'', ''world'')]]" emptyDisk]
  from t a write_page1 write_dup storedKV_storeDup noFaults_emptyDisk e show ?thesis
    by simp
qed

text \<open>
  C7 as stated fails across pages. On a new store, five records with 400-byte keys and
  values leave 30 free bytes in page 1. The key \<open>"k"\<close> inserted with a 400-byte value goes to
  a new page 2; the key \<open>"k"\<close> inserted again with the value \<open>"new"\<close> fits page 1.
  \<open>FindRecord\<close> scans page 1 first and returns \<open>"new"\<close>, the most recent value.
\<close>

theorem duplicate_key_counterexample:
  "findAfter (NewPageManager emptyDisk)
     [(filler, filler), (filler, filler), (filler, filler), (filler, filler), (filler, filler),
      (''k'', filler), (''k'', ''new'')] ''k'' = Some (Inr ''new'')
   \<and> filler \<noteq> ''new''"
proof -
  have "findAfter (NewPageManager emptyDisk)
     [(filler, filler), (filler, filler), (filler, filler), (filler, filler), (filler, filler),
      (''k'', filler), (''k'', ''new'')] ''k'' = Some (Inr ''new'')"
    by (subst findAfter_storedKV [OF storedKV_emptyDisk])
      (simp_all add: freeOf_def used_def recordSize_def)
  then show ?thesis by simp
qed


end
